theory Spec2Isabelle
  imports Main "HOL-Library.Word" "HOL-Library.Sublist"
begin

section \<open>The powertask scheduler: data model (powertask.h)\<close>

text \<open>
  The C program keeps its whole state in three globals and in heap objects linked by
  pointers. The embedding keeps the same shape: a pointer is an address (an index into an
  arena of objects of its type), \<open>NULL\<close> is \<open>None\<close>, and every dereference of the
  source is a checked read of the arena, so that a null or wild dereference is a value of
  the model (a \<open>fault\<close>) and not an unspecified HOL term. The debug level and the
  \<open>DEBUGF\<close> traces are diagnostics only and are left out.
\<close>

type_synonym powertask_ID_t = "16 word"
type_synonym powertask_data_t = "8 word"
type_synonym powertask_length_t = "16 word"
type_synonym powertask_result_t = "16 word"
type_synonym powertask_energy_t = "16 word"

text \<open>Addresses of task structs and of telemetry packets.\<close>

type_synonym task_ptr = nat
type_synonym telemetry_ptr = nat

record powertask_telemetry_header_t =
  hdr_ID :: powertask_ID_t
  hdr_length :: powertask_length_t

record powertask_telemetry_t =
  header :: powertask_telemetry_header_t
  data :: "powertask_data_t list"

definition POWERTASK_RESULT_OK :: powertask_result_t where
  "POWERTASK_RESULT_OK = 0x1001"

definition POWERTASK_RESULT_RETRY :: powertask_result_t where
  "POWERTASK_RESULT_RETRY = 0x10FF"

definition POWERTASK_RESULT_FAIL_QUIET :: powertask_result_t where
  "POWERTASK_RESULT_FAIL_QUIET = 0x2000"

definition POWERTASK_RESULT_FAIL_OUTPUT :: powertask_result_t where
  "POWERTASK_RESULT_FAIL_OUTPUT = 0x4000"

definition POWERTASK_RESULT_LAST :: powertask_result_t where
  "POWERTASK_RESULT_LAST = 0x6000"

text \<open>
  A function pointer is the address of a function: the built-in idle task of
  \<open>powertask_builtin.c\<close>, or the \<open>n\<close>-th function of the application.
\<close>

datatype powertask_function_t = Fn_powertask_idle_task | Fn_application nat

record powertask_attribute_t =
  ID :: powertask_ID_t
  name :: string
  minimum_battery :: powertask_energy_t
  task_function :: powertask_function_t
  input_length :: powertask_length_t
  output_length :: powertask_length_t

text \<open>
  \<open>struct powertask_task_t\<close>. The attribute is a pointer to constant data, so it is
  kept by value, \<open>None\<close> for the null pointer of a freshly zeroed struct. The fields
  with the prefix \<open>t_\<close> are the source's \<open>input\<close>, \<open>output\<close>, \<open>prev\<close> and
  \<open>next\<close>; \<open>task_function\<close> is the attribute's \<open>function\<close>.
\<close>

record powertask_task_t =
  attribute :: "powertask_attribute_t option"
  t_input :: "telemetry_ptr option"
  t_output :: "telemetry_ptr option"
  lower :: "task_ptr option"
  higher :: "task_ptr option"
  t_prev :: "task_ptr option"
  t_next :: "task_ptr option"

text \<open>
  The globals \<open>registered_tasks\<close>, \<open>runnable_tasks\<close> and
  \<open>powertask_current_battery\<close>, and the two arenas.
\<close>

record state =
  registered_tasks :: "task_ptr option"
  runnable_tasks :: "task_ptr option"
  powertask_current_battery :: powertask_energy_t
  tasks :: "powertask_task_t list"
  telemetry :: "powertask_telemetry_t list"

text \<open>
  What a call can do instead of returning: \<open>powertask_fatal\<close> (a message, the ID,
  then \<open>exit(1)\<close>), a dereference of the null pointer or of an address outside the
  arena, a write outside a packet's payload, and a loop that never ends.
\<close>

datatype fault =
  Fatal string "16 word"
  | Null_dereference
  | Wild_pointer
  | Out_of_bounds
  | Diverges

definition initial_state :: state where
  "initial_state = \<lparr>registered_tasks = None, runnable_tasks = None,
     powertask_current_battery = 30000, tasks = [], telemetry = []\<rparr>"

subsection \<open>Reading and writing through pointers\<close>

definition task_at :: "state \<Rightarrow> task_ptr option \<Rightarrow> fault + powertask_task_t" where
  "task_at s p = (case p of
       None \<Rightarrow> Inl Null_dereference
     | Some i \<Rightarrow> if i < length (tasks s) then Inr (tasks s ! i) else Inl Wild_pointer)"

definition attribute_at :: "state \<Rightarrow> task_ptr option \<Rightarrow> fault + powertask_attribute_t" where
  "attribute_at s p = (case task_at s p of
       Inl e \<Rightarrow> Inl e
     | Inr t \<Rightarrow> (case attribute t of None \<Rightarrow> Inl Null_dereference | Some a \<Rightarrow> Inr a))"

definition upd_task :: "task_ptr \<Rightarrow> (powertask_task_t \<Rightarrow> powertask_task_t) \<Rightarrow> state \<Rightarrow> state" where
  "upd_task p f s = s\<lparr>tasks := (tasks s)[p := f (tasks s ! p)]\<rparr>"

definition telemetry_at :: "state \<Rightarrow> telemetry_ptr option \<Rightarrow> fault + powertask_telemetry_t" where
  "telemetry_at s p = (case p of
       None \<Rightarrow> Inl Null_dereference
     | Some i \<Rightarrow> if i < length (telemetry s) then Inr (telemetry s ! i) else Inl Wild_pointer)"

text \<open>The assignment \<open>p->data[i] = v\<close>.\<close>

definition write_data :: "telemetry_ptr option \<Rightarrow> nat \<Rightarrow> powertask_data_t \<Rightarrow> state \<Rightarrow> fault + state" where
  "write_data p i v s = (case telemetry_at s p of
       Inl e \<Rightarrow> Inl e
     | Inr b \<Rightarrow> if i < length (data b)
         then Inr (s\<lparr>telemetry := (telemetry s)[the p := b\<lparr>data := (data b)[i := v]\<rparr>]\<rparr>)
         else Inl Out_of_bounds)"

text \<open>The read \<open>p->data[i]\<close>.\<close>

definition read_data :: "telemetry_ptr option \<Rightarrow> nat \<Rightarrow> state \<Rightarrow> fault + powertask_data_t" where
  "read_data p i s = (case telemetry_at s p of
       Inl e \<Rightarrow> Inl e
     | Inr b \<Rightarrow> if i < length (data b) then Inr (data b ! i) else Inl Out_of_bounds)"

section \<open>powertask\_builtin.c\<close>

subsection \<open>The registry: a binary tree keyed by ID\<close>

text \<open>
  \<open>powertask_link_into_tree\<close> is a \<open>while (1)\<close> walk down the tree. The walk only
  reads the heap until its last step, so a walk that takes more steps than there are task
  structs has come back to a struct it has visited and never ends: the fuel
  \<open>Suc (length (tasks s))\<close> loses nothing, and running out of it is the value
  \<open>Diverges\<close>.
\<close>

fun link_into_tree_loop :: "nat \<Rightarrow> task_ptr option \<Rightarrow> task_ptr option \<Rightarrow> state \<Rightarrow> fault + state" where
  "link_into_tree_loop 0 parent task s = Inl Diverges"
| "link_into_tree_loop (Suc fuel) parent task s =
     (case attribute_at s parent of Inl e \<Rightarrow> Inl e | Inr pa \<Rightarrow>
     (case attribute_at s task of Inl e \<Rightarrow> Inl e | Inr ta \<Rightarrow>
        if ID pa < ID ta then
          (case lower (tasks s ! the parent) of
             Some l \<Rightarrow> link_into_tree_loop fuel (Some l) task s
           | None \<Rightarrow> Inr (upd_task (the parent) (\<lambda>t. t\<lparr>lower := task\<rparr>) s))
        else if ID pa > ID ta then
          (case higher (tasks s ! the parent) of
             Some h \<Rightarrow> link_into_tree_loop fuel (Some h) task s
           | None \<Rightarrow> Inr (upd_task (the parent) (\<lambda>t. t\<lparr>higher := task\<rparr>) s))
        else Inl (Fatal ''powertask_register ID collision'' (ID ta))))"

definition powertask_link_into_tree :: "task_ptr option \<Rightarrow> task_ptr option \<Rightarrow> state \<Rightarrow> fault + state" where
  "powertask_link_into_tree parent task s =
     link_into_tree_loop (Suc (length (tasks s))) parent task s"

fun task_lookup_loop :: "nat \<Rightarrow> task_ptr option \<Rightarrow> powertask_ID_t \<Rightarrow> state \<Rightarrow> fault + task_ptr option" where
  "task_lookup_loop 0 parent i s = Inl Diverges"
| "task_lookup_loop (Suc fuel) parent i s =
     (case attribute_at s parent of Inl e \<Rightarrow> Inl e | Inr pa \<Rightarrow>
        if ID pa < i then
          (case lower (tasks s ! the parent) of
             Some l \<Rightarrow> task_lookup_loop fuel (Some l) i s
           | None \<Rightarrow> Inr None)
        else if ID pa > i then
          (case higher (tasks s ! the parent) of
             Some h \<Rightarrow> task_lookup_loop fuel (Some h) i s
           | None \<Rightarrow> Inr None)
        else Inr parent)"

definition powertask_task_lookup :: "powertask_ID_t \<Rightarrow> state \<Rightarrow> fault + task_ptr option" where
  "powertask_task_lookup i s =
     task_lookup_loop (Suc (length (tasks s))) (registered_tasks s) i s"

subsection \<open>Telemetry packets\<close>

text \<open>
  \<open>calloc(1, sizeof(powertask_telemetry_header_t) + len)\<close>: a fresh packet, all of
  its bytes zero, the header's two fields among them. The allocator is taken to succeed.
\<close>

definition powertask_allocate_telemetry :: "powertask_length_t \<Rightarrow> state \<Rightarrow> telemetry_ptr option \<times> state" where
  "powertask_allocate_telemetry len s =
     (Some (length (telemetry s)),
      s\<lparr>telemetry := telemetry s @
         [\<lparr>header = \<lparr>hdr_ID = 0, hdr_length = 0\<rparr>, data = replicate (unat len) 0\<rparr>]\<rparr>)"

subsection \<open>The runnable list\<close>

definition powertask_make_runnable :: "powertask_ID_t \<Rightarrow> state \<Rightarrow> fault + (telemetry_ptr option \<times> state)" where
  "powertask_make_runnable i s =
     (case powertask_task_lookup i s of Inl e \<Rightarrow> Inl e | Inr task \<Rightarrow>
      if task = None then Inl (Fatal ''Invalid task in powertask_make_runnable'' i) else
     (case attribute_at s task of Inl e \<Rightarrow> Inl e | Inr a \<Rightarrow>
      let t = the task in
      if t_prev (tasks s ! t) \<noteq> None then Inr (t_input (tasks s ! t), s) else
      let s1 = (if t_input (tasks s ! t) = None
                then (let (b, s') = powertask_allocate_telemetry (input_length a) s
                      in upd_task t (\<lambda>x. x\<lparr>t_input := b\<rparr>) s')
                else s);
          s2 = (if t_output (tasks s1 ! t) = None
                then (let (b, s') = powertask_allocate_telemetry (output_length a) s1
                      in upd_task t (\<lambda>x. x\<lparr>t_output := b\<rparr>) s')
                else s1)
      in
      if runnable_tasks s2 = None then
        (let s3 = upd_task t (\<lambda>x. x\<lparr>t_prev := task\<rparr>) s2;
             s4 = upd_task t (\<lambda>x. x\<lparr>t_next := task\<rparr>) s3;
             s5 = s4\<lparr>runnable_tasks := task\<rparr>
         in Inr (t_input (tasks s5 ! t), s5))
      else
        (case task_at s2 (runnable_tasks s2) of Inl e \<Rightarrow> Inl e | Inr r \<Rightarrow>
         let s3 = upd_task t (\<lambda>x. x\<lparr>t_next := t_next r\<rparr>) s2;
             s4 = upd_task (the (runnable_tasks s3)) (\<lambda>x. x\<lparr>t_next := task\<rparr>) s3;
             s5 = upd_task t (\<lambda>x. x\<lparr>t_prev := runnable_tasks s4\<rparr>) s4;
             s6 = s5\<lparr>runnable_tasks := task\<rparr>
         in Inr (t_input (tasks s6 ! t), s6))))"

text \<open>
  \<open>remove_task\<close>: two stores through the task's links, each read when its statement
  runs, then the cursor.
\<close>

definition remove_task :: "task_ptr option \<Rightarrow> state \<Rightarrow> fault + state" where
  "remove_task task s =
     (case task_at s task of Inl e \<Rightarrow> Inl e | Inr t \<Rightarrow>
     (case task_at s (t_prev t) of Inl e \<Rightarrow> Inl e | Inr _ \<Rightarrow>
      let s1 = upd_task (the (t_prev t)) (\<lambda>x. x\<lparr>t_next := t_next t\<rparr>) s in
     (case task_at s1 task of Inl e \<Rightarrow> Inl e | Inr t1 \<Rightarrow>
     (case task_at s1 (t_next t1) of Inl e \<Rightarrow> Inl e | Inr _ \<Rightarrow>
      let s2 = upd_task (the (t_next t1)) (\<lambda>x. x\<lparr>t_prev := t_prev t1\<rparr>) s1 in
      if task = runnable_tasks s2
      then Inr (s2\<lparr>runnable_tasks := t_next (tasks s2 ! the task)\<rparr>)
      else Inr s2))))"

subsection \<open>Registration\<close>

text \<open>
  \<open>calloc(1, sizeof(powertask_task_t))\<close>: a fresh struct with every pointer null. The
  allocator is taken to succeed.
\<close>

definition calloc_task :: "state \<Rightarrow> task_ptr option \<times> state" where
  "calloc_task s =
     (Some (length (tasks s)),
      s\<lparr>tasks := tasks s @
         [\<lparr>attribute = None, t_input = None, t_output = None, lower = None, higher = None,
           t_prev = None, t_next = None\<rparr>]\<rparr>)"

definition powertask_ID_builtin_idle :: powertask_ID_t where
  "powertask_ID_builtin_idle = 0xFFFF"

definition attributes_idle_task :: powertask_attribute_t where
  "attributes_idle_task = \<lparr>ID = powertask_ID_builtin_idle, name = ''IdleTask'',
     minimum_battery = 0, task_function = Fn_powertask_idle_task,
     input_length = 0, output_length = 0\<rparr>"

text \<open>
  \<open>powertask_setup\<close>, \<open>powertask_register\<close> and \<open>powertask_task_register\<close> call
  each other in the source: the first registration runs the setup, which registers the
  idle task, and that registration finds the root set.
\<close>

definition reg_rank :: "state \<Rightarrow> nat" where
  "reg_rank s = (if registered_tasks s = None then 3 else 0)"

function powertask_setup :: "state \<Rightarrow> fault + state"
  and powertask_register :: "powertask_attribute_t \<Rightarrow> state \<Rightarrow> fault + state"
  and powertask_task_register :: "powertask_attribute_t \<Rightarrow> task_ptr option \<Rightarrow> state \<Rightarrow> fault + state"
where
  "powertask_setup s =
     (case powertask_register attributes_idle_task s of Inl e \<Rightarrow> Inl e | Inr s1 \<Rightarrow>
     (case powertask_make_runnable powertask_ID_builtin_idle s1 of Inl e \<Rightarrow> Inl e
      | Inr (b, s2) \<Rightarrow> Inr s2))"
| "powertask_register a s =
     powertask_task_register a (fst (calloc_task s)) (snd (calloc_task s))"
| "powertask_task_register a task s =
     (case task_at s task of Inl e \<Rightarrow> Inl e | Inr _ \<Rightarrow>
      let s1 = upd_task (the task) (\<lambda>x. x\<lparr>attribute := Some a\<rparr>) s;
          s2 = upd_task (the task) (\<lambda>x. x\<lparr>lower := None, higher := None\<rparr>) s1;
          s3 = upd_task (the task) (\<lambda>x. x\<lparr>t_prev := None, t_next := None\<rparr>) s2
      in
      if registered_tasks s3 = None
      then powertask_setup (s3\<lparr>registered_tasks := task\<rparr>)
      else powertask_link_into_tree (registered_tasks s3) task s3)"
  by pat_completeness auto
termination
  by (relation "measure (\<lambda>x. case x of
        Inl s \<Rightarrow> 2 + reg_rank s
      | Inr (Inl (a, s)) \<Rightarrow> 1 + reg_rank s
      | Inr (Inr (a, t, s)) \<Rightarrow> reg_rank s)")
    (auto simp: reg_rank_def calloc_task_def upd_task_def task_at_def split: option.splits if_splits)

declare powertask_setup.simps [simp del]
declare powertask_register.simps [simp del]
declare powertask_task_register.simps [simp del]

subsection \<open>The dispatcher\<close>

text \<open>
  A task function is C code: it gets its two packets and may read and write the whole
  state (\<open>function_A\<close> of the example calls \<open>powertask_make_runnable\<close>), returns a
  result code, or does not return. The application's functions are a table from their
  addresses to their behaviour.
\<close>

type_synonym task_fn =
  "telemetry_ptr option \<Rightarrow> telemetry_ptr option \<Rightarrow> state \<Rightarrow> fault + (powertask_result_t \<times> state)"

type_synonym application = "nat \<Rightarrow> task_fn"

definition powertask_idle_task :: task_fn where
  "powertask_idle_task inp outp s = Inr (POWERTASK_RESULT_RETRY, s)"

definition call_function :: "application \<Rightarrow> powertask_function_t \<Rightarrow> task_fn" where
  "call_function app f = (case f of
       Fn_powertask_idle_task \<Rightarrow> powertask_idle_task
     | Fn_application n \<Rightarrow> app n)"

text \<open>The statement \<open>runnable_tasks = runnable_tasks->next\<close>.\<close>

definition advance_cursor :: "state \<Rightarrow> fault + state" where
  "advance_cursor s = (case task_at s (runnable_tasks s) of
       Inl e \<Rightarrow> Inl e
     | Inr r \<Rightarrow> Inr (s\<lparr>runnable_tasks := t_next r\<rparr>))"

definition powertask_run_next :: "application \<Rightarrow> state \<Rightarrow> fault + (bool \<times> state)" where
  "powertask_run_next app s =
     (let task = runnable_tasks s in
      case attribute_at s task of Inl e \<Rightarrow> Inl e | Inr a \<Rightarrow>
     (let need_battery = minimum_battery a in
      case
        (if powertask_current_battery s \<ge> need_battery then
           (case call_function app (task_function a)
                   (t_input (tasks s ! the task)) (t_output (tasks s ! the task)) s of
              Inl e \<Rightarrow> Inl e
            | Inr (result, s1) \<Rightarrow>
                if result = POWERTASK_RESULT_RETRY then advance_cursor s1
                else if result = POWERTASK_RESULT_OK then remove_task task s1
                else if result \<ge> POWERTASK_RESULT_FAIL_QUIET \<and> result < POWERTASK_RESULT_FAIL_OUTPUT
                  then remove_task task s1
                else if result \<ge> POWERTASK_RESULT_FAIL_OUTPUT \<and> result < POWERTASK_RESULT_LAST
                  then remove_task task s1
                else Inl (Fatal ''task returned invalid result code'' result))
         else advance_cursor s)
      of Inl e \<Rightarrow> Inl e
       | Inr s2 \<Rightarrow>
          (case task_at s2 (runnable_tasks s2) of
             Inl e \<Rightarrow> Inl e
           | Inr r \<Rightarrow> Inr (runnable_tasks s2 \<noteq> t_next r, s2))))"

section \<open>Observing the runnable list\<close>

text \<open>
  The members of the runnable list are the tasks the dispatcher will come to: the structs
  on the \<open>next\<close> chain from the cursor, up to the link that comes back to the cursor.
\<close>

fun next_walk :: "nat \<Rightarrow> state \<Rightarrow> task_ptr \<Rightarrow> task_ptr \<Rightarrow> task_ptr list" where
  "next_walk 0 s start p = []"
| "next_walk (Suc n) s start p =
     p # (case task_at s (Some p) of
            Inl e \<Rightarrow> []
          | Inr t \<Rightarrow> (case t_next t of
                None \<Rightarrow> []
              | Some q \<Rightarrow> if q = start then [] else next_walk n s start q))"

definition runnable_members :: "state \<Rightarrow> task_ptr list" where
  "runnable_members s = (case runnable_tasks s of
       None \<Rightarrow> []
     | Some c \<Rightarrow> next_walk (length (tasks s)) s c c)"

section \<open>example\_ABC.c\<close>

text \<open>
  \<open>function_A\<close> with the constant of its \<open>return\<close> statement as a parameter; the
  source returns \<open>POWERTASK_RESULT_OK\<close>. The bytes \<open>0x41\<close> and \<open>0x42\<close> are the
  characters \<open>'A'\<close> and \<open>'B'\<close>.
\<close>

definition function_A_returning :: "powertask_result_t \<Rightarrow> task_fn" where
  "function_A_returning r inp outp s =
     (case write_data outp 0 0x41 s of Inl e \<Rightarrow> Inl e | Inr s1 \<Rightarrow>
     (case powertask_make_runnable 0xB007 s1 of Inl e \<Rightarrow> Inl e | Inr (Bin, s2) \<Rightarrow>
     (case write_data Bin 0 0x42 s2 of Inl e \<Rightarrow> Inl e | Inr s3 \<Rightarrow> Inr (r, s3))))"

definition function_A :: task_fn where
  "function_A = function_A_returning POWERTASK_RESULT_OK"

definition attributes_A :: powertask_attribute_t where
  "attributes_A = \<lparr>ID = 0xA123, name = ''Demo A'', minimum_battery = 1000,
     task_function = Fn_application 0, input_length = 0, output_length = 1\<rparr>"

definition function_B :: task_fn where
  "function_B inp outp s =
     (case read_data inp 0 s of Inl e \<Rightarrow> Inl e | Inr inb \<Rightarrow>
     (case read_data outp 0 s of Inl e \<Rightarrow> Inl e | Inr outb \<Rightarrow>
        if outb = 0
        then (case write_data outp 0 inb s of Inl e \<Rightarrow> Inl e
              | Inr s1 \<Rightarrow> Inr (POWERTASK_RESULT_RETRY, s1))
        else (case write_data outp 0 (outb + 1) s of Inl e \<Rightarrow> Inl e
              | Inr s1 \<Rightarrow> Inr (POWERTASK_RESULT_OK, s1))))"

definition attributes_B :: powertask_attribute_t where
  "attributes_B = \<lparr>ID = 0xB007, name = ''Demo B'', minimum_battery = 10000,
     task_function = Fn_application 1, input_length = 1, output_length = 1\<rparr>"

text \<open>The application's code: \<open>function_A\<close> at address 0, \<open>function_B\<close> at address 1.\<close>

definition example_ABC :: application where
  "example_ABC n = (if n = 0 then function_A else if n = 1 then function_B
     else (\<lambda>inp outp s. Inl Wild_pointer))"

text \<open>
  \<open>main\<close> up to its loop: the two registrations and
  \<open>powertask_make_runnable(0xA123)\<close>.
\<close>

definition main_registered :: "fault + state" where
  "main_registered =
     (case powertask_register attributes_A initial_state of Inl e \<Rightarrow> Inl e | Inr s1 \<Rightarrow>
        powertask_register attributes_B s1)"

definition main_before_loop :: "fault + state" where
  "main_before_loop =
     (case main_registered of Inl e \<Rightarrow> Inl e | Inr s2 \<Rightarrow>
     (case powertask_make_runnable 0xA123 s2 of Inl e \<Rightarrow> Inl e | Inr (b, s3) \<Rightarrow> Inr s3))"

text \<open>The first \<open>n\<close> turns of \<open>while (powertask_run_next()) {}\<close>.\<close>

fun run_loop :: "nat \<Rightarrow> application \<Rightarrow> state \<Rightarrow> fault + (bool \<times> state)" where
  "run_loop 0 app s = Inr (True, s)"
| "run_loop (Suc n) app s =
     (case powertask_run_next app s of
        Inl e \<Rightarrow> Inl e
      | Inr (again, s1) \<Rightarrow> if again then run_loop n app s1 else Inr (False, s1))"

text \<open>
  The state after the two registrations of \<open>main\<close>, written out: no task but the idle
  task has packets or links.
\<close>

definition registered_state :: state where
  "registered_state = \<lparr>registered_tasks = Some 0, runnable_tasks = Some 1,
     powertask_current_battery = 30000,
     tasks =
       [\<lparr>attribute = Some attributes_A, t_input = None, t_output = None,
          lower = Some 1, higher = None, t_prev = None, t_next = None\<rparr>,
        \<lparr>attribute = Some attributes_idle_task, t_input = Some 0, t_output = Some 1,
          lower = None, higher = Some 2, t_prev = Some 1, t_next = Some 1\<rparr>,
        \<lparr>attribute = Some attributes_B, t_input = None, t_output = None,
          lower = None, higher = None, t_prev = None, t_next = None\<rparr>],
     telemetry =
       [\<lparr>header = \<lparr>hdr_ID = 0, hdr_length = 0\<rparr>, data = []\<rparr>,
        \<lparr>header = \<lparr>hdr_ID = 0, hdr_length = 0\<rparr>, data = []\<rparr>]\<rparr>"

text \<open>
  The state \<open>main\<close> reaches before its loop, written out: the struct of task A at
  address 0, the idle task's at 1, task B's at 2; packets 0 and 1 are the idle task's,
  2 and 3 task A's input and output.
\<close>

definition main_state :: state where
  "main_state = \<lparr>registered_tasks = Some 0, runnable_tasks = Some 0,
     powertask_current_battery = 30000,
     tasks =
       [\<lparr>attribute = Some attributes_A, t_input = Some 2, t_output = Some 3,
          lower = Some 1, higher = None, t_prev = Some 1, t_next = Some 1\<rparr>,
        \<lparr>attribute = Some attributes_idle_task, t_input = Some 0, t_output = Some 1,
          lower = None, higher = Some 2, t_prev = Some 1, t_next = Some 0\<rparr>,
        \<lparr>attribute = Some attributes_B, t_input = None, t_output = None,
          lower = None, higher = None, t_prev = None, t_next = None\<rparr>],
     telemetry =
       [\<lparr>header = \<lparr>hdr_ID = 0, hdr_length = 0\<rparr>, data = []\<rparr>,
        \<lparr>header = \<lparr>hdr_ID = 0, hdr_length = 0\<rparr>, data = []\<rparr>,
        \<lparr>header = \<lparr>hdr_ID = 0, hdr_length = 0\<rparr>, data = []\<rparr>,
        \<lparr>header = \<lparr>hdr_ID = 0, hdr_length = 0\<rparr>, data = [0]\<rparr>]\<rparr>"

text \<open>
  A second program over the same two functions, with a third task C that runs
  \<open>function_B\<close>: it registers A, B and C, makes A and then C runnable and fills C's
  input with \<open>'C'\<close>, as the caller of \<open>powertask_make_runnable\<close> is asked to.
\<close>

definition attributes_C :: powertask_attribute_t where
  "attributes_C = \<lparr>ID = 0xC000, name = ''Demo C'', minimum_battery = 10000,
     task_function = Fn_application 1, input_length = 1, output_length = 1\<rparr>"

definition three_tasks_registered :: "fault + state" where
  "three_tasks_registered =
     (case main_registered of Inl e \<Rightarrow> Inl e | Inr s2 \<Rightarrow> powertask_register attributes_C s2)"

definition three_tasks_before_loop :: "fault + state" where
  "three_tasks_before_loop =
     (case three_tasks_registered of Inl e \<Rightarrow> Inl e | Inr s3 \<Rightarrow>
     (case powertask_make_runnable 0xA123 s3 of Inl e \<Rightarrow> Inl e | Inr (b, s4) \<Rightarrow>
     (case powertask_make_runnable 0xC000 s4 of Inl e \<Rightarrow> Inl e | Inr (Cin, s5) \<Rightarrow>
        write_data Cin 0 0x43 s5)))"

text \<open>The state of the example after \<open>n\<close> turns of the loop of \<open>main\<close>.\<close>

definition example_state :: "nat \<Rightarrow> state" where
  "example_state n = (case run_loop n example_ABC main_state of
       Inl e \<Rightarrow> initial_state
     | Inr (again, s) \<Rightarrow> s)"

text \<open>
  A driving program: it takes steps of the dispatcher, and between them the energy source
  sets the available energy, or the program makes a task runnable (and, with
  \<open>Make_runnable_filled\<close>, fills the first byte of its input). The log has, for each step, the task at the cursor and whether the
  test \<open>powertask_current_battery >= need_battery\<close> of \<open>powertask_run_next\<close> let
  its function run.
\<close>

definition executes :: "state \<Rightarrow> bool" where
  "executes s = (case attribute_at s (runnable_tasks s) of
       Inl e \<Rightarrow> False
     | Inr a \<Rightarrow> minimum_battery a \<le> powertask_current_battery s)"

datatype driver_action =
  Step
  | Set_energy powertask_energy_t
  | Make_runnable powertask_ID_t
  | Make_runnable_filled powertask_ID_t powertask_data_t

fun drive :: "application \<Rightarrow> driver_action list \<Rightarrow> state \<Rightarrow>
    fault + ((task_ptr option \<times> bool) list \<times> state)" where
  "drive app [] s = Inr ([], s)"
| "drive app (Step # as) s =
     (case powertask_run_next app s of Inl e \<Rightarrow> Inl e | Inr (again, s1) \<Rightarrow>
     (case drive app as s1 of Inl e \<Rightarrow> Inl e
      | Inr (log, s2) \<Rightarrow> Inr ((runnable_tasks s, executes s) # log, s2)))"
| "drive app (Set_energy e # as) s = drive app as (s\<lparr>powertask_current_battery := e\<rparr>)"
| "drive app (Make_runnable i # as) s =
     (case powertask_make_runnable i s of Inl e \<Rightarrow> Inl e | Inr (p, s1) \<Rightarrow> drive app as s1)"
| "drive app (Make_runnable_filled i v # as) s =
     (case powertask_make_runnable i s of Inl e \<Rightarrow> Inl e | Inr (p, s1) \<Rightarrow>
     (case write_data p 0 v s1 of Inl e \<Rightarrow> Inl e | Inr s2 \<Rightarrow> drive app as s2))"

text \<open>The state the driving program leaves, from the state of the second program before its loop.\<close>

definition three_tasks_state :: "driver_action list \<Rightarrow> state" where
  "three_tasks_state as =
     (case three_tasks_before_loop of Inl e \<Rightarrow> initial_state | Inr s \<Rightarrow>
     (case drive example_ABC as s of Inl e \<Rightarrow> initial_state | Inr (log, s') \<Rightarrow> s'))"

section \<open>Properties of the structures\<close>

text \<open>
  A packet as \<open>calloc\<close> leaves it, and the header the specification asks of an
  allocated packet: the owner's ID and the payload's length.
\<close>

definition zeroed_packet :: "powertask_length_t \<Rightarrow> powertask_telemetry_t" where
  "zeroed_packet len =
     \<lparr>header = \<lparr>hdr_ID = 0, hdr_length = 0\<rparr>, data = replicate (unat len) 0\<rparr>"

definition header_tagged :: "powertask_ID_t \<Rightarrow> powertask_length_t \<Rightarrow> powertask_telemetry_t \<Rightarrow> bool" where
  "header_tagged owner len b = (hdr_ID (header b) = owner \<and> hdr_length (header b) = len)"

text \<open>
  The links of a member \<open>m\<close> agree with its neighbours': the successor's \<open>prev\<close> and
  the predecessor's \<open>next\<close> are \<open>m\<close>.
\<close>

definition links_agree :: "state \<Rightarrow> task_ptr \<Rightarrow> bool" where
  "links_agree s m =
     (case task_at s (Some m) of Inl e \<Rightarrow> False | Inr t \<Rightarrow>
        (case task_at s (t_next t) of Inl e \<Rightarrow> False | Inr n \<Rightarrow> t_prev n = Some m) \<and>
        (case task_at s (t_prev t) of Inl e \<Rightarrow> False | Inr p \<Rightarrow> t_next p = Some m))"

section \<open>Executions of the scheduler\<close>

text \<open>
  What the application may do to the state, between two steps of the dispatcher or from
  inside a task function: call \<open>powertask_make_runnable\<close> or
  \<open>powertask_register\<close>, write a byte of a packet, and (as the energy source) change
  the available energy. A task function is well behaved when its effect on the state is a
  sequence of such actions.
\<close>

inductive app_step :: "state \<Rightarrow> state \<Rightarrow> bool" where
  make: "powertask_make_runnable i s = Inr (b, s') \<Longrightarrow> app_step s s'"
| reg: "powertask_register a s = Inr s' \<Longrightarrow> app_step s s'"
| fill: "write_data p k v s = Inr s' \<Longrightarrow> app_step s s'"
| energy: "app_step s (s\<lparr>powertask_current_battery := e\<rparr>)"

definition well_behaved :: "application \<Rightarrow> bool" where
  "well_behaved app \<longleftrightarrow>
     (\<forall>n inp outp s r s'. app n inp outp s = Inr (r, s') \<longrightarrow> app_step\<^sup>*\<^sup>* s s')"

text \<open>
  The states the program can be in: the initial one, and those that an action of the
  application or a step of the dispatcher that returns leads to.
\<close>

inductive reachable :: "application \<Rightarrow> state \<Rightarrow> bool" for app where
  init: "reachable app initial_state"
| app: "reachable app s \<Longrightarrow> app_step s s' \<Longrightarrow> reachable app s'"
| run: "reachable app s \<Longrightarrow> powertask_run_next app s = Inr (b, s') \<Longrightarrow> reachable app s'"

text \<open>A freshly bootstrapped scheduler: tasks have been registered and nothing else.\<close>

inductive registered_only :: "state \<Rightarrow> bool" where
  first: "powertask_register a initial_state = Inr s \<Longrightarrow> registered_only s"
| later: "registered_only s \<Longrightarrow> powertask_register a s = Inr s' \<Longrightarrow> registered_only s'"

text \<open>
  An execution between two selections of the task \<open>T\<close>: steps of the dispatcher, and
  between them the application registers tasks, writes to packets, the energy changes,
  and the driving program calls \<open>powertask_make_runnable\<close> while the cursor is not at
  \<open>T\<close> (or for a task that is linked already, a call that changes nothing). Task
  functions call \<open>powertask_make_runnable\<close> as they like.
  \<open>selections app T s xs s'\<close>: such an execution leads from \<open>s\<close> to \<open>s'\<close>, and
  \<open>xs\<close> are the tasks at the cursor at its steps, in order.
\<close>

inductive quiet_step :: "state \<Rightarrow> state \<Rightarrow> bool" where
  reg: "powertask_register a s = Inr s' \<Longrightarrow> quiet_step s s'"
| fill: "write_data p k v s = Inr s' \<Longrightarrow> quiet_step s s'"
| energy: "quiet_step s (s\<lparr>powertask_current_battery := e\<rparr>)"

inductive selections ::
  "application \<Rightarrow> task_ptr \<Rightarrow> state \<Rightarrow> task_ptr list \<Rightarrow> state \<Rightarrow> bool" for app T where
  stop: "selections app T s [] s"
| quiet: "quiet_step s s1 \<Longrightarrow> selections app T s1 xs s2 \<Longrightarrow> selections app T s xs s2"
| make: "powertask_make_runnable i s = Inr (p, s1) \<Longrightarrow>
         runnable_tasks s \<noteq> Some T \<or> s1 = s \<Longrightarrow>
         selections app T s1 xs s2 \<Longrightarrow> selections app T s xs s2"
| step: "runnable_tasks s = Some c \<Longrightarrow> powertask_run_next app s = Inr (b, s1) \<Longrightarrow>
         selections app T s1 xs s2 \<Longrightarrow> selections app T s (c # xs) s2"

section \<open>The invariant of the runnable list\<close>

text \<open>
  \<open>next_path s x as y\<close>: the structs \<open>as\<close> are allocated, the first is \<open>x\<close>, each
  one's \<open>next\<close> is the one after it, and the last one's \<open>next\<close> is \<open>y\<close>.
\<close>

fun next_path :: "state \<Rightarrow> task_ptr \<Rightarrow> task_ptr list \<Rightarrow> task_ptr \<Rightarrow> bool" where
  "next_path s x [] y \<longleftrightarrow> x = y"
| "next_path s x (a # as) y \<longleftrightarrow>
     x = a \<and> a < length (tasks s) \<and> (\<exists>z. t_next (tasks s ! a) = Some z \<and> next_path s z as y)"

definition before :: "'a list \<Rightarrow> 'a \<Rightarrow> 'a \<Rightarrow> bool" where
  "before L p x \<longleftrightarrow> (\<exists>A G C. L = A @ p # G @ x # C)"

text \<open>
  The invariant, for the list \<open>L\<close> of the members read from the idle task on: the
  \<open>next\<close> links form one cycle through \<open>L\<close>; the first member is the idle task; the
  cursor is a member; a member's \<open>prev\<close> is set; a \<open>prev\<close> link points to an allocated
  struct whose own \<open>prev\<close> is set; and the \<open>prev\<close> of a member other than the idle
  task, when it points to a member at all, points to one that comes earlier in \<open>L\<close>.
  The \<open>prev\<close> links need not mirror the \<open>next\<close> links: the code does not keep them so.
\<close>

definition list_inv :: "state \<Rightarrow> task_ptr list \<Rightarrow> bool" where
  "list_inv s L \<longleftrightarrow>
     L \<noteq> [] \<and> distinct L \<and> next_path s (hd L) L (hd L) \<and>
     attribute (tasks s ! hd L) = Some attributes_idle_task \<and>
     (\<exists>c \<in> set L. runnable_tasks s = Some c) \<and>
     registered_tasks s \<noteq> None \<and>
     (\<forall>x \<in> set L. t_prev (tasks s ! x) \<noteq> None) \<and>
     (\<forall>x < length (tasks s). \<forall>p. t_prev (tasks s ! x) = Some p \<longrightarrow>
         p < length (tasks s) \<and> t_prev (tasks s ! p) \<noteq> None) \<and>
     (\<forall>x \<in> set (tl L). \<forall>p \<in> set L. t_prev (tasks s ! x) = Some p \<longrightarrow> before L p x)"

definition pre_boot :: "state \<Rightarrow> bool" where
  "pre_boot s \<longleftrightarrow> registered_tasks s = None \<and> runnable_tasks s = None \<and> tasks s = []"

definition sched_inv :: "state \<Rightarrow> bool" where
  "sched_inv s \<longleftrightarrow> pre_boot s \<or> (\<exists>L. list_inv s L \<and> hd L = 1)"

text \<open>
  While the function of the task \<open>x\<close> runs, \<open>x\<close> stays a member and the cursor is at
  \<open>x\<close> or at a task spliced in after it.
\<close>

definition during :: "task_ptr \<Rightarrow> task_ptr \<Rightarrow> state \<Rightarrow> bool" where
  "during x h s \<longleftrightarrow>
     (\<exists>L. list_inv s L \<and> hd L = h \<and> x \<in> set L \<and>
          (runnable_tasks s = Some x \<or> (\<exists>c. runnable_tasks s = Some c \<and> before L x c)))"

text \<open>
  The effect of the splice of \<open>powertask_make_runnable\<close> (the task \<open>t\<close> after the
  cursor \<open>c\<close>) and of \<open>remove_task\<close> (the task \<open>x\<close>, whose links are \<open>p\<close> and
  \<open>y\<close>) on the links, and the changes that leave the links of the allocated structs as
  they are.
\<close>

definition inserted :: "state \<Rightarrow> task_ptr \<Rightarrow> task_ptr \<Rightarrow> state \<Rightarrow> bool" where
  "inserted s c t s' \<longleftrightarrow>
     runnable_tasks s' = Some t \<and> registered_tasks s' = registered_tasks s \<and>
     powertask_current_battery s' = powertask_current_battery s \<and>
     length (tasks s') = length (tasks s) \<and>
     (\<forall>x < length (tasks s). attribute (tasks s' ! x) = attribute (tasks s ! x)) \<and>
     (\<forall>x < length (tasks s). t_next (tasks s' ! x) =
        (if x = t then t_next (tasks s ! c) else if x = c then Some t else t_next (tasks s ! x))) \<and>
     (\<forall>x < length (tasks s). t_prev (tasks s' ! x) =
        (if x = t then Some c else t_prev (tasks s ! x)))"

definition removed :: "state \<Rightarrow> task_ptr \<Rightarrow> task_ptr \<Rightarrow> task_ptr \<Rightarrow> state \<Rightarrow> bool" where
  "removed s x p y s' \<longleftrightarrow>
     runnable_tasks s' = (if runnable_tasks s = Some x then Some y else runnable_tasks s) \<and>
     registered_tasks s' = registered_tasks s \<and>
     powertask_current_battery s' = powertask_current_battery s \<and>
     telemetry s' = telemetry s \<and>
     length (tasks s') = length (tasks s) \<and>
     (\<forall>z < length (tasks s). attribute (tasks s' ! z) = attribute (tasks s ! z)) \<and>
     (\<forall>z < length (tasks s). t_next (tasks s' ! z) =
        (if z = p then Some y else t_next (tasks s ! z))) \<and>
     (\<forall>z < length (tasks s). t_prev (tasks s' ! z) =
        (if z = y then Some p else t_prev (tasks s ! z)))"

definition extends :: "state \<Rightarrow> state \<Rightarrow> bool" where
  "extends s s' \<longleftrightarrow>
     runnable_tasks s' = runnable_tasks s \<and>
     (registered_tasks s' = None) = (registered_tasks s = None) \<and>
     length (tasks s) \<le> length (tasks s') \<and>
     (\<forall>x < length (tasks s).
        attribute (tasks s' ! x) = attribute (tasks s ! x) \<and>
        t_next (tasks s' ! x) = t_next (tasks s ! x) \<and>
        t_prev (tasks s' ! x) = t_prev (tasks s ! x)) \<and>
     (\<forall>x < length (tasks s'). length (tasks s) \<le> x \<longrightarrow> t_prev (tasks s' ! x) = None)"

text \<open>
  A struct is linked when its \<open>prev\<close> is set: it has been made runnable at some time.
  While a task function runs, the members read from the cursor are the members at its
  start with the newly spliced tasks \<open>Vs\<close>, none of them linked before, between the
  running task and its old successor, and the cursor at the last of them.
\<close>

definition linked :: "state \<Rightarrow> task_ptr \<Rightarrow> bool" where
  "linked s x \<longleftrightarrow> x < length (tasks s) \<and> t_prev (tasks s ! x) \<noteq> None"

definition spliced :: "state \<Rightarrow> state \<Rightarrow> bool" where
  "spliced s0 s1 \<longleftrightarrow>
     (\<exists>Vs. runnable_members s1 =
             last (hd (runnable_members s0) # Vs) # tl (runnable_members s0)
               @ butlast (hd (runnable_members s0) # Vs) \<and>
           (\<forall>v \<in> set Vs. \<not> linked s0 v) \<and> (\<forall>x. linked s0 x \<longrightarrow> linked s1 x))"

section \<open>The example program, evaluated\<close>

lemmas result_codes = POWERTASK_RESULT_OK_def POWERTASK_RESULT_RETRY_def
  POWERTASK_RESULT_FAIL_QUIET_def POWERTASK_RESULT_FAIL_OUTPUT_def POWERTASK_RESULT_LAST_def

lemmas example_defs = function_A_returning_def main_state_def write_data_def read_data_def
  telemetry_at_def powertask_make_runnable_def powertask_task_lookup_def attribute_at_def
  task_at_def attributes_A_def attributes_B_def attributes_idle_task_def
  powertask_ID_builtin_idle_def upd_task_def powertask_allocate_telemetry_def Let_def
  powertask_run_next_def call_function_def example_ABC_def advance_cursor_def
  remove_task_def runnable_members_def

lemma main_registered_eq: "main_registered = Inr registered_state"
  by code_simp

lemma main_before_loop_eq: "main_before_loop = Inr main_state"
  by code_simp

lemma main_state_members: "runnable_members main_state = [0, 1]"
  by code_simp

section \<open>The walks of the registry and the result codes\<close>

text \<open>
  A walk that ends within its fuel ends the same way with more: the fuel only bounds the
  walks that do not end.
\<close>

lemma task_lookup_loop_more_fuel:
  "task_lookup_loop n parent i s \<noteq> Inl Diverges \<Longrightarrow>
   task_lookup_loop (n + k) parent i s = task_lookup_loop n parent i s"
proof (induction n arbitrary: parent)
  case 0
  then show ?case by simp
next
  case (Suc n)
  then show ?case by (auto split: sum.splits option.splits)
qed

lemma link_into_tree_loop_more_fuel:
  "link_into_tree_loop n parent task s \<noteq> Inl Diverges \<Longrightarrow>
   link_into_tree_loop (n + k) parent task s = link_into_tree_loop n parent task s"
proof (induction n arbitrary: parent)
  case 0
  then show ?case by simp
next
  case (Suc n)
  then show ?case by (auto split: sum.splits option.splits)
qed

text \<open>
  The result code of an admitted task decides the step: retry moves the cursor on,
  success and the two failure ranges call \<open>remove_task\<close>, any other code is fatal.
  No branch hands the output packet to anything: the source has a \<open>FIXME\<close> there.
\<close>

lemma run_next_result_codes:
  assumes "attribute_at s (runnable_tasks s) = Inr a"
    and "minimum_battery a \<le> powertask_current_battery s"
    and "call_function app (task_function a) (t_input (tasks s ! the (runnable_tasks s)))
           (t_output (tasks s ! the (runnable_tasks s))) s = Inr (result, s1)"
  shows "powertask_run_next app s =
    (case (if result = POWERTASK_RESULT_RETRY then advance_cursor s1
           else if result = POWERTASK_RESULT_OK \<or>
                   (POWERTASK_RESULT_FAIL_QUIET \<le> result \<and> result < POWERTASK_RESULT_LAST)
             then remove_task (runnable_tasks s) s1
           else Inl (Fatal ''task returned invalid result code'' result))
     of Inl e \<Rightarrow> Inl e
      | Inr s2 \<Rightarrow>
          (case task_at s2 (runnable_tasks s2) of
             Inl e \<Rightarrow> Inl e
           | Inr r \<Rightarrow> Inr (runnable_tasks s2 \<noteq> t_next r, s2)))"
proof -
  have "(POWERTASK_RESULT_FAIL_QUIET \<le> result \<and> result < POWERTASK_RESULT_FAIL_OUTPUT) \<or>
        (POWERTASK_RESULT_FAIL_OUTPUT \<le> result \<and> result < POWERTASK_RESULT_LAST)
        \<longleftrightarrow> POWERTASK_RESULT_FAIL_QUIET \<le> result \<and> result < POWERTASK_RESULT_LAST"
  proof -
    have "POWERTASK_RESULT_FAIL_QUIET \<le> POWERTASK_RESULT_FAIL_OUTPUT"
      "POWERTASK_RESULT_FAIL_OUTPUT < POWERTASK_RESULT_LAST"
      by (simp_all add: result_codes)
    then show ?thesis by (auto simp: not_less)
  qed
  with assms show ?thesis
    by (auto simp: powertask_run_next_def Let_def)
qed

section \<open>The invariant holds in every reachable state\<close>

lemma next_path_append:
  "next_path s x (as @ bs) z \<longleftrightarrow> (\<exists>y. next_path s x as y \<and> next_path s y bs z)"
  by (induction as arbitrary: x) auto

lemma next_path_valid: "next_path s x as y \<Longrightarrow> a \<in> set as \<Longrightarrow> a < length (tasks s)"
  by (induction as arbitrary: x) auto

lemma next_path_frame:
  "next_path s x as y \<Longrightarrow> length (tasks s) \<le> length (tasks s') \<Longrightarrow>
   (\<And>a. a \<in> set as \<Longrightarrow> t_next (tasks s' ! a) = t_next (tasks s ! a)) \<Longrightarrow>
   next_path s' x as y"
  by (induction as arbitrary: x) auto

lemma next_path_hd: "next_path s x as y \<Longrightarrow> as \<noteq> [] \<Longrightarrow> hd as = x"
  by (cases as) auto

lemma next_path_fun: "next_path s x as y \<Longrightarrow> next_path s x as y' \<Longrightarrow> y = y'"
  by (induction as arbitrary: x) auto

lemma walk_path:
  "next_path s x as start \<Longrightarrow> as \<noteq> [] \<Longrightarrow> start \<notin> set (tl as) \<Longrightarrow> length as \<le> n \<Longrightarrow>
   next_walk n s start x = as"
proof (induction as arbitrary: x n)
  case Nil
  then show ?case by simp
next
  case (Cons a as)
  then obtain m where n: "n = Suc m" by (cases n) auto
  from Cons.prems obtain z where a: "x = a" "a < length (tasks s)"
    "t_next (tasks s ! a) = Some z" "next_path s z as start" by auto
  show ?case
  proof (cases as)
    case Nil
    with a n show ?thesis by (simp add: task_at_def)
  next
    case (Cons b bs)
    with a have zb: "z = b" by simp
    from Cons \<open>start \<notin> set (tl (a # as))\<close> have ne: "b \<noteq> start" "start \<notin> set (tl as)" by auto
    from Cons.IH [of z m] a Cons ne Cons.prems n have "next_walk m s start z = as" by simp
    with a n zb ne show ?thesis by (simp add: task_at_def)
  qed
qed

lemma distinct_bounded_length:
  assumes "distinct L" "\<forall>x \<in> set L. x < (n::nat)"
  shows "length L \<le> n"
proof -
  have "set L \<subseteq> {..<n}" using assms by auto
  then have "card (set L) \<le> card {..<n}" by (intro card_mono) auto
  with assms show ?thesis by (simp add: distinct_card)
qed

lemma members_rotation:
  assumes inv: "list_inv s L" and cur: "runnable_tasks s = Some c" and L: "L = A @ c # B"
  shows "runnable_members s = c # B @ A"
proof -
  from inv have d: "distinct L" and p: "next_path s (hd L) L (hd L)" and ne: "L \<noteq> []"
    by (auto simp: list_inv_def)
  from p L obtain y where y: "next_path s (hd L) A y" "next_path s y (c # B) (hd L)"
    by (auto simp: next_path_append)
  then have yc: "y = c" by simp
  have "next_path s c ((c # B) @ A) c"
    unfolding next_path_append using y yc by auto
  moreover have "c \<notin> set (tl ((c # B) @ A))" using d L by auto
  moreover have "length ((c # B) @ A) \<le> length (tasks s)"
  proof -
    have "\<forall>x \<in> set L. x < length (tasks s)" using p next_path_valid by blast
    from distinct_bounded_length [OF d this] L show ?thesis by simp
  qed
  ultimately have "next_walk (length (tasks s)) s c c = (c # B) @ A"
    by (intro walk_path) auto
  with cur show ?thesis by (simp add: runnable_members_def)
qed

lemma make_runnable_effect:
  assumes run: "powertask_make_runnable i s = Inr (b, s')"
    and cur: "runnable_tasks s = Some c" "c < length (tasks s)" "t_prev (tasks s ! c) \<noteq> None"
  shows "s' = s \<or> (\<exists>t < length (tasks s). t_prev (tasks s ! t) = None \<and> inserted s c t s')"
proof -
  from run obtain t where look: "powertask_task_lookup i s = Inr (Some t)"
    by (auto simp: powertask_make_runnable_def split: sum.splits if_splits)
  from run look have valid: "t < length (tasks s)"
    by (auto simp: powertask_make_runnable_def attribute_at_def task_at_def
        split: sum.splits if_splits)
  show ?thesis
  proof (cases "t_prev (tasks s ! t) = None")
    case False
    with run look show ?thesis
      by (auto simp: powertask_make_runnable_def Let_def split: sum.splits if_splits)
  next
    case True
    with cur have ne: "t \<noteq> c" by auto
    have "inserted s c t s'"
      using run look valid True cur ne
      unfolding inserted_def
      by (auto simp: powertask_make_runnable_def attribute_at_def task_at_def Let_def
        powertask_allocate_telemetry_def upd_task_def nth_list_update
        split: sum.splits if_splits option.splits)
    with valid True show ?thesis by blast
  qed
qed

lemma before_subseq: "before L p x \<longleftrightarrow> subseq [p, x] L"
proof
  assume "before L p x"
  then obtain A G C where "L = A @ p # G @ x # C" by (auto simp: before_def)
  then show "subseq [p, x] L" by (auto intro!: list_emb_append2 simp: subseq_singleton_left)
next
  assume "subseq [p, x] L"
  then obtain us vs where L: "L = us @ p # vs" and "subseq [x] vs"
    by (auto dest: list_emb_ConsD)
  then have "x \<in> set vs" by (simp add: subseq_singleton_left)
  then obtain G C where "vs = G @ x # C" by (auto dest: split_list)
  with L show "before L p x" unfolding before_def by blast
qed

lemma before_total:
  "x \<in> set L \<Longrightarrow> y \<in> set L \<Longrightarrow> x \<noteq> y \<Longrightarrow> before L x y \<or> before L y x"
  unfolding before_subseq
  by (induction L) (auto simp: subseq_singleton_left)

lemma before_antisym: "distinct L \<Longrightarrow> before L p x \<Longrightarrow> \<not> before L x p"
  unfolding before_subseq
  by (induction L) (auto simp: subseq_singleton_left dest: list_emb_set split: if_splits)

lemma before_members: "before L p x \<Longrightarrow> p \<in> set L \<and> x \<in> set L"
  by (auto simp: before_def)

lemma before_neq: "distinct L \<Longrightarrow> before L p x \<Longrightarrow> p \<noteq> x"
  by (auto simp: before_def)

lemma before_mono: "before L p x \<Longrightarrow> subseq L L' \<Longrightarrow> before L' p x"
  unfolding before_subseq by (rule subseq_order.trans)

lemma before_sub:
  assumes "before L p x" "subseq L' L" "distinct L" "p \<in> set L'" "x \<in> set L'"
  shows "before L' p x"
proof -
  from assms have "p \<noteq> x" by (auto dest: before_neq)
  with assms before_total [of p L' x] have "before L' p x \<or> before L' x p" by simp
  moreover have "\<not> before L' x p"
    using before_mono [of L' x p L] before_antisym [of L p x] assms by blast
  ultimately show ?thesis by simp
qed

lemma before_trans: "distinct L \<Longrightarrow> before L a b \<Longrightarrow> before L b c \<Longrightarrow> before L a c"
  unfolding before_subseq
  by (induction L) (auto simp: subseq_singleton_left dest: list_emb_set split: if_splits)

lemma hd_in_tl: "x \<in> set L \<Longrightarrow> x \<noteq> hd L \<Longrightarrow> x \<in> set (tl L)"
  by (cases L) auto

lemma list_inv_cursor:
  assumes "list_inv s L" "runnable_tasks s = Some c"
  shows "c \<in> set L" "c < length (tasks s)" "t_prev (tasks s ! c) \<noteq> None"
proof -
  from assms show c: "c \<in> set L" by (auto simp: list_inv_def)
  from assms have "next_path s (hd L) L (hd L)" by (simp add: list_inv_def)
  with c show "c < length (tasks s)" by (auto intro: next_path_valid)
  from assms c show "t_prev (tasks s ! c) \<noteq> None" by (auto simp: list_inv_def)
qed

lemma list_inv_inserted:
  assumes inv: "list_inv s L" and ins: "inserted s c t s'"
    and cur: "runnable_tasks s = Some c"
    and t: "t < length (tasks s)" "t_prev (tasks s ! t) = None"
  shows "\<exists>A B. L = A @ c # B \<and> list_inv s' (A @ c # t # B)"
proof -
  from list_inv_cursor [OF inv cur] have cL: "c \<in> set L" and cv: "c < length (tasks s)"
    and cp: "t_prev (tasks s ! c) \<noteq> None" by auto
  from cL obtain A B where L: "L = A @ c # B" by (auto dest: split_list)
  let ?L = "A @ c # t # B"
  from inv have d: "distinct L" and path: "next_path s (hd L) L (hd L)"
    and idle: "attribute (tasks s ! hd L) = Some attributes_idle_task"
    and reg: "registered_tasks s \<noteq> None"
    and mem: "\<forall>x \<in> set L. t_prev (tasks s ! x) \<noteq> None"
    and tgt: "\<forall>x < length (tasks s). \<forall>p. t_prev (tasks s ! x) = Some p \<longrightarrow>
         p < length (tasks s) \<and> t_prev (tasks s ! p) \<noteq> None"
    and ord: "\<forall>x \<in> set (tl L). \<forall>p \<in> set L. t_prev (tasks s ! x) = Some p \<longrightarrow> before L p x"
    by (auto simp: list_inv_def)
  from mem t have tL: "t \<notin> set L" by auto
  from path have valid: "\<forall>x \<in> set L. x < length (tasks s)" using next_path_valid by blast
  have hd: "hd ?L = hd L" using L by (cases A) auto
  from ins have len: "length (tasks s') = length (tasks s)"
    and nx: "\<And>x. x < length (tasks s) \<Longrightarrow> t_next (tasks s' ! x) =
        (if x = t then t_next (tasks s ! c) else if x = c then Some t else t_next (tasks s ! x))"
    and pv: "\<And>x. x < length (tasks s) \<Longrightarrow> t_prev (tasks s' ! x) =
        (if x = t then Some c else t_prev (tasks s ! x))"
    and at: "\<And>x. x < length (tasks s) \<Longrightarrow> attribute (tasks s' ! x) = attribute (tasks s ! x)"
    by (auto simp: inserted_def)
  have dist: "distinct ?L" using d tL L by auto
  have path': "next_path s' (hd ?L) ?L (hd ?L)"
  proof -
    from path L obtain z where pa: "next_path s (hd L) A c"
      and z: "t_next (tasks s ! c) = Some z" "next_path s z B (hd L)"
      by (auto simp: next_path_append)
    have "next_path s' (hd L) A c"
      using pa len d L tL valid by (intro next_path_frame [OF pa]) (auto simp: nx)
    moreover have "next_path s' z B (hd L)"
      using z len d L tL valid by (intro next_path_frame [OF z(2)]) (auto simp: nx)
    ultimately show ?thesis
      unfolding hd next_path_append using z cv t tL L len by (auto simp: nx)
  qed
  have idle': "attribute (tasks s' ! hd ?L) = Some attributes_idle_task"
    using idle hd valid L at [of "hd L"] by (cases A) auto
  have cur': "\<exists>c' \<in> set ?L. runnable_tasks s' = Some c'"
    using ins by (auto simp: inserted_def)
  have reg': "registered_tasks s' \<noteq> None" using ins reg by (auto simp: inserted_def)
  have mem': "\<forall>x \<in> set ?L. t_prev (tasks s' ! x) \<noteq> None"
    using mem valid L t by (auto simp: pv)
  have tgt': "\<forall>x < length (tasks s'). \<forall>p. t_prev (tasks s' ! x) = Some p \<longrightarrow>
         p < length (tasks s') \<and> t_prev (tasks s' ! p) \<noteq> None"
    using tgt cv cp t len by (auto simp: pv split: if_splits)
  have ord': "\<forall>x \<in> set (tl ?L). \<forall>p \<in> set ?L. t_prev (tasks s' ! x) = Some p \<longrightarrow> before ?L p x"
  proof (intro ballI impI)
    fix x p assume x: "x \<in> set (tl ?L)" and p: "p \<in> set ?L"
      and xp: "t_prev (tasks s' ! x) = Some p"
    show "before ?L p x"
    proof (cases "x = t")
      case True
      with xp t have "p = c" by (simp add: pv)
      with True show ?thesis unfolding before_def by (intro exI [of _ A] exI [of _ "[]"] exI [of _ B]) simp
    next
      case False
      from x have "x \<in> set ?L" by (auto dest: list.set_sel(2) [rotated])
      with False L have xL: "x \<in> set L" by auto
      with valid have xv: "x < length (tasks s)" by simp
      with xp False have xp0: "t_prev (tasks s ! x) = Some p" by (simp add: pv)
      with tgt xv have "t_prev (tasks s ! p) \<noteq> None" by blast
      with t have "p \<noteq> t" by auto
      with p L have pL: "p \<in> set L" by auto
      have "x \<noteq> hd L"
        using x dist hd False by (cases A; cases ?L) (auto simp: L)
      with xL have "x \<in> set (tl L)" by (rule hd_in_tl)
      with ord pL xp0 have "before L p x" by blast
      moreover have "subseq L ?L" unfolding L by (auto intro!: list_emb_append_mono)
      ultimately show ?thesis by (rule before_mono)
    qed
  qed
  from dist path' idle' cur' reg' mem' tgt' ord' have "list_inv s' ?L"
    unfolding list_inv_def by simp
  with L show ?thesis by blast
qed

lemma remove_task_effect:
  assumes x: "x < length (tasks s)"
    and p: "t_prev (tasks s ! x) = Some p" "p < length (tasks s)" "p \<noteq> x"
    and y: "t_next (tasks s ! x) = Some y" "y < length (tasks s)" "y \<noteq> x"
  shows "\<exists>s'. remove_task (Some x) s = Inr s' \<and> removed s x p y s'"
  using assms unfolding removed_def
  by (cases "runnable_tasks s")
    (auto simp: remove_task_def task_at_def upd_task_def Let_def nth_list_update)

lemma next_in_cycle:
  assumes "list_inv s L" "x \<in> set L"
  shows "\<exists>y \<in> set L. t_next (tasks s ! x) = Some y \<and> (length L > 1 \<longrightarrow> y \<noteq> x)"
proof -
  from assms have d: "distinct L" and path: "next_path s (hd L) L (hd L)" and ne: "L \<noteq> []"
    by (auto simp: list_inv_def)
  from assms(2) obtain A B where L: "L = A @ x # B" by (auto dest: split_list)
  from path L obtain z where z: "t_next (tasks s ! x) = Some z" "next_path s z B (hd L)"
    by (auto simp: next_path_append)
  show ?thesis
  proof (cases B)
    case Nil
    with z have "z = hd L" by simp
    with z ne L Nil d show ?thesis by (cases A) auto
  next
    case (Cons b B')
    with z have "z = b" by simp
    with z L Cons d show ?thesis by auto
  qed
qed

lemma after_in_suffix:
  assumes "distinct (U @ x # C)" "before (U @ x # C) x c"
  shows "c \<in> set C"
proof (rule ccontr)
  assume "c \<notin> set C"
  moreover from assms have "c \<in> set (U @ x # C)" by (auto dest: before_members)
  moreover from before_neq [OF assms] have "x \<noteq> c" .
  ultimately have "c \<in> set U" by auto
  then obtain U1 U2 where "U = U1 @ c # U2" by (auto dest: split_list)
  then have "before (U @ x # C) c x" unfolding before_def by auto
  with before_antisym [OF assms] show False by simp
qed

lemma list_inv_removed:
  assumes inv: "list_inv s L" and xL: "x \<in> set L" and xh: "x \<noteq> hd L"
    and rem: "removed s x p y s'"
    and p: "t_prev (tasks s ! x) = Some p" and y: "t_next (tasks s ! x) = Some y"
    and cur: "runnable_tasks s = Some x \<or> (\<exists>c. runnable_tasks s = Some c \<and> before L x c)"
  shows "\<exists>L'. list_inv s' L' \<and> hd L' = hd L \<and> subseq L' L \<and>
           ((p \<notin> set L \<and> L' = L) \<or> (\<exists>A G C. L = A @ p # G @ x # C \<and> L' = A @ p # C))"
proof -
  from inv have d: "distinct L" and path: "next_path s (hd L) L (hd L)"
    and idle: "attribute (tasks s ! hd L) = Some attributes_idle_task"
    and reg: "registered_tasks s \<noteq> None"
    and mem: "\<forall>x \<in> set L. t_prev (tasks s ! x) \<noteq> None"
    and tgt: "\<forall>x < length (tasks s). \<forall>p. t_prev (tasks s ! x) = Some p \<longrightarrow>
         p < length (tasks s) \<and> t_prev (tasks s ! p) \<noteq> None"
    and ord: "\<forall>x \<in> set (tl L). \<forall>p \<in> set L. t_prev (tasks s ! x) = Some p \<longrightarrow> before L p x"
    and ne: "L \<noteq> []"
    by (auto simp: list_inv_def)
  from path have valid: "\<forall>x \<in> set L. x < length (tasks s)" using next_path_valid by blast
  from rem have len: "length (tasks s') = length (tasks s)"
    and nx: "\<And>z. z < length (tasks s) \<Longrightarrow> t_next (tasks s' ! z) =
        (if z = p then Some y else t_next (tasks s ! z))"
    and pv: "\<And>z. z < length (tasks s) \<Longrightarrow> t_prev (tasks s' ! z) =
        (if z = y then Some p else t_prev (tasks s ! z))"
    and at: "\<And>z. z < length (tasks s) \<Longrightarrow> attribute (tasks s' ! z) = attribute (tasks s ! z)"
    and cu: "runnable_tasks s' = (if runnable_tasks s = Some x then Some y else runnable_tasks s)"
    and reg': "registered_tasks s' \<noteq> None"
    using reg by (auto simp: removed_def)
  from xL valid have xv: "x < length (tasks s)" by simp
  with tgt p have pvalid: "p < length (tasks s)" and pp: "t_prev (tasks s ! p) \<noteq> None" by auto
  from next_in_cycle [OF inv xL] y have yL: "y \<in> set L" by auto
  with valid have yv: "y < length (tasks s)" by simp
  have tgt': "\<forall>z < length (tasks s'). \<forall>q. t_prev (tasks s' ! z) = Some q \<longrightarrow>
         q < length (tasks s') \<and> t_prev (tasks s' ! q) \<noteq> None"
    using tgt pvalid pp len by (auto simp: pv split: if_splits)
  have mem': "\<forall>z \<in> set L. t_prev (tasks s' ! z) \<noteq> None"
    using mem valid by (auto simp: pv)
  show ?thesis
  proof (cases "p \<in> set L")
    case False
    have path': "next_path s' (hd L) L (hd L)"
      using False len valid by (intro next_path_frame [OF path]) (auto simp: nx)
    have idle': "attribute (tasks s' ! hd L) = Some attributes_idle_task"
      using idle valid ne at [of "hd L"] by auto
    have cur': "\<exists>c \<in> set L. runnable_tasks s' = Some c"
      using cur yL cu by (auto dest: before_members)
    have ord': "\<forall>z \<in> set (tl L). \<forall>q \<in> set L. t_prev (tasks s' ! z) = Some q \<longrightarrow> before L q z"
    proof (intro ballI impI)
      fix z q assume z: "z \<in> set (tl L)" and q: "q \<in> set L"
        and zq: "t_prev (tasks s' ! z) = Some q"
      from z ne have zL: "z \<in> set L" by (auto dest: list.set_sel(2))
      with valid zq False q have "t_prev (tasks s ! z) = Some q"
        by (auto simp: pv split: if_splits)
      with ord z q show "before L q z" by blast
    qed
    from ne d path' idle' cur' reg' mem' tgt' ord' have "list_inv s' L"
      unfolding list_inv_def by simp
    with False show ?thesis by (intro exI [of _ L]) simp
  next
    case True
    from xL xh have "x \<in> set (tl L)" by (rule hd_in_tl)
    with ord True p have "before L p x" by blast
    then obtain A G C where L: "L = A @ p # G @ x # C" by (auto simp: before_def)
    let ?L = "A @ p # C"
    have hd: "hd ?L = hd L" using L by (cases A) auto
    have sub: "subseq ?L L" unfolding L
      by (intro list_emb_append_mono) (auto intro!: list_emb_append2)
    have dist: "distinct ?L" using d L by auto
    from path L obtain w where pa: "next_path s (hd L) A p"
      and yC: "next_path s y C (hd L)"
      using y by (auto simp: next_path_append)
    have path': "next_path s' (hd ?L) ?L (hd ?L)"
    proof -
      have "next_path s' (hd L) A p"
        using len d L valid by (intro next_path_frame [OF pa]) (auto simp: nx)
      moreover have "next_path s' y C (hd L)"
        using len d L valid by (intro next_path_frame [OF yC]) (auto simp: nx)
      ultimately show ?thesis
        unfolding hd next_path_append using pvalid len by (auto simp: nx)
    qed
    have idle': "attribute (tasks s' ! hd ?L) = Some attributes_idle_task"
      unfolding hd using idle valid ne at [of "hd L"] by auto
    have yL': "y \<in> set ?L"
    proof (cases C)
      case Nil
      with yC have "y = hd L" by simp
      with hd show ?thesis by (metis list.set_sel(1) append_is_Nil_conv list.distinct(1))
    next
      case (Cons b C')
      with yC show ?thesis by simp
    qed
    have cur': "\<exists>c \<in> set ?L. runnable_tasks s' = Some c"
    proof (cases "runnable_tasks s = Some x")
      case True
      with cu yL' show ?thesis by simp
    next
      case False
      with cur obtain c where c: "runnable_tasks s = Some c" "before L x c" by auto
      have "c \<in> set C"
        using after_in_suffix [of "A @ p # G" x C c] d c L by simp
      with cu c False show ?thesis by simp
    qed
    have mem'': "\<forall>z \<in> set ?L. t_prev (tasks s' ! z) \<noteq> None"
      using mem' L by auto
    have ord': "\<forall>z \<in> set (tl ?L). \<forall>q \<in> set ?L. t_prev (tasks s' ! z) = Some q \<longrightarrow> before ?L q z"
    proof (intro ballI impI)
      fix z q assume z: "z \<in> set (tl ?L)" and q: "q \<in> set ?L"
        and zq: "t_prev (tasks s' ! z) = Some q"
      from z have zL': "z \<in> set ?L" by (auto dest: list.set_sel(2) [rotated])
      with L have zL: "z \<in> set L" by auto
      from q L have qL: "q \<in> set L" by auto
      from z dist have zh: "z \<noteq> hd ?L" by (cases ?L) auto
      show "before ?L q z"
      proof (cases "z = y")
        case True
        with zq yv have qp: "q = p" by (simp add: pv)
        from True zh hd have "y \<noteq> hd L" by simp
        with yC obtain b C' where C: "C = b # C'" "y = b" by (cases C) auto
        with True qp show ?thesis
          unfolding before_def by (intro exI [of _ A] exI [of _ "[]"] exI [of _ C']) simp
      next
        case False
        with zq zL valid have "t_prev (tasks s ! z) = Some q" by (simp add: pv)
        moreover from zL zh hd have "z \<in> set (tl L)" by (auto intro: hd_in_tl)
        ultimately have "before L q z" using ord qL by blast
        from before_sub [OF this sub d q zL'] show ?thesis .
      qed
    qed
    have "?L \<noteq> []" by simp
    with dist path' idle' cur' reg' mem'' tgt' ord' have "list_inv s' ?L"
      unfolding list_inv_def by simp
    with hd sub L show ?thesis by blast
  qed
qed

lemma list_inv_extends:
  assumes inv: "list_inv s L" and ext: "extends s s'"
  shows "list_inv s' L"
proof -
  from inv have d: "distinct L" and path: "next_path s (hd L) L (hd L)"
    and idle: "attribute (tasks s ! hd L) = Some attributes_idle_task"
    and reg: "registered_tasks s \<noteq> None"
    and mem: "\<forall>x \<in> set L. t_prev (tasks s ! x) \<noteq> None"
    and tgt: "\<forall>x < length (tasks s). \<forall>p. t_prev (tasks s ! x) = Some p \<longrightarrow>
         p < length (tasks s) \<and> t_prev (tasks s ! p) \<noteq> None"
    and ord: "\<forall>x \<in> set (tl L). \<forall>p \<in> set L. t_prev (tasks s ! x) = Some p \<longrightarrow> before L p x"
    and ne: "L \<noteq> []" and cur: "\<exists>c \<in> set L. runnable_tasks s = Some c"
    by (auto simp: list_inv_def)
  from path have valid: "\<forall>x \<in> set L. x < length (tasks s)" using next_path_valid by blast
  from ext have len: "length (tasks s) \<le> length (tasks s')"
    and same: "\<And>x. x < length (tasks s) \<Longrightarrow>
        attribute (tasks s' ! x) = attribute (tasks s ! x) \<and>
        t_next (tasks s' ! x) = t_next (tasks s ! x) \<and>
        t_prev (tasks s' ! x) = t_prev (tasks s ! x)"
    and new: "\<And>x. x < length (tasks s') \<Longrightarrow> length (tasks s) \<le> x \<Longrightarrow> t_prev (tasks s' ! x) = None"
    by (auto simp: extends_def)
  have path': "next_path s' (hd L) L (hd L)"
    using len valid same by (intro next_path_frame [OF path]) auto
  have idle': "attribute (tasks s' ! hd L) = Some attributes_idle_task"
    using idle valid ne same [of "hd L"] by auto
  have cur': "\<exists>c \<in> set L. runnable_tasks s' = Some c" using cur ext by (auto simp: extends_def)
  have reg': "registered_tasks s' \<noteq> None" using reg ext by (auto simp: extends_def)
  have mem': "\<forall>x \<in> set L. t_prev (tasks s' ! x) \<noteq> None" using mem valid same by auto
  have tgt': "\<forall>x < length (tasks s'). \<forall>p. t_prev (tasks s' ! x) = Some p \<longrightarrow>
         p < length (tasks s') \<and> t_prev (tasks s' ! p) \<noteq> None"
  proof (intro allI impI)
    fix x p assume x: "x < length (tasks s')" and xp: "t_prev (tasks s' ! x) = Some p"
    with new [of x] have xv: "x < length (tasks s)" by (cases "x < length (tasks s)") auto
    with xp same have "t_prev (tasks s ! x) = Some p" by simp
    with tgt xv have "p < length (tasks s)" "t_prev (tasks s ! p) \<noteq> None" by auto
    with same len show "p < length (tasks s') \<and> t_prev (tasks s' ! p) \<noteq> None" by auto
  qed
  have ord': "\<forall>x \<in> set (tl L). \<forall>p \<in> set L. t_prev (tasks s' ! x) = Some p \<longrightarrow> before L p x"
  proof (intro ballI impI)
    fix x p assume x: "x \<in> set (tl L)" and p: "p \<in> set L" and xp: "t_prev (tasks s' ! x) = Some p"
    from x ne have "x \<in> set L" by (auto dest: list.set_sel(2))
    with valid same xp have "t_prev (tasks s ! x) = Some p" by auto
    with ord x p show "before L p x" by blast
  qed
  from ne d path' idle' cur' reg' mem' tgt' ord' show ?thesis unfolding list_inv_def by simp
qed

lemma link_into_tree_loop_extends:
  "link_into_tree_loop n parent task s = Inr s' \<Longrightarrow> extends s s' \<and> length (tasks s') = length (tasks s)"
proof (induction n arbitrary: parent)
  case 0
  then show ?case by simp
next
  case (Suc n)
  then show ?case
    by (auto simp: extends_def upd_task_def nth_list_update attribute_at_def task_at_def
        split: sum.splits if_splits option.splits)
qed

lemma register_extends:
  assumes "registered_tasks s \<noteq> None" "powertask_register a s = Inr s'"
  shows "extends s s'"
proof -
  from assms obtain root where root: "registered_tasks s = Some root" by auto
  define s3 where "s3 = s\<lparr>tasks := tasks s @
         [\<lparr>attribute = Some a, t_input = None, t_output = None, lower = None, higher = None,
           t_prev = None, t_next = None\<rparr>]\<rparr>"
  from assms(2) root have "powertask_link_into_tree (Some root) (Some (length (tasks s))) s3 = Inr s'"
    by (simp add: powertask_register.simps powertask_task_register.simps calloc_task_def
        task_at_def Let_def upd_task_def s3_def)
  then have "extends s3 s' \<and> length (tasks s') = length (tasks s3)"
    unfolding powertask_link_into_tree_def by (rule link_into_tree_loop_extends)
  then have "extends s3 s'" and len: "length (tasks s') = length (tasks s3)" by simp_all
  then show ?thesis
    unfolding extends_def s3_def by (auto simp: nth_append split: if_splits)
qed

lemma max_ID: "\<not> (0xFFFF :: 16 word) < x"
proof -
  have "unat x < 2 ^ LENGTH(16)" by (rule unsigned_less)
  then show ?thesis by (simp add: word_less_nat_alt)
qed

lemma first_register:
  assumes "pre_boot s" "powertask_register a s = Inr s'"
  shows "list_inv s' [1] \<and> powertask_task_lookup powertask_ID_builtin_idle s' = Inr (Some 1)
     \<and> length (tasks s') = 2"
  using assms max_ID [of "ID a"]
  apply (simp add: pre_boot_def powertask_register.simps powertask_task_register.simps
     powertask_setup.simps calloc_task_def task_at_def Let_def upd_task_def
     powertask_link_into_tree_def attribute_at_def attributes_idle_task_def
     powertask_ID_builtin_idle_def powertask_make_runnable_def powertask_task_lookup_def
     powertask_allocate_telemetry_def
     split: if_splits)
  apply (auto simp: list_inv_def attributes_idle_task_def powertask_ID_builtin_idle_def
      powertask_task_lookup_def attribute_at_def task_at_def less_Suc_eq)
  done

lemma write_data_extends: "write_data p k v s = Inr s' \<Longrightarrow> extends s s'"
  by (auto simp: write_data_def extends_def split: sum.splits if_splits)

lemma energy_extends: "extends s (s\<lparr>powertask_current_battery := e\<rparr>)"
  by (simp add: extends_def)

lemma during_extends:
  assumes "during x h s" "extends s s'"
  shows "during x h s'"
proof -
  from assms(1) obtain L where L: "list_inv s L" "hd L = h" "x \<in> set L"
    "runnable_tasks s = Some x \<or> (\<exists>c. runnable_tasks s = Some c \<and> before L x c)"
    by (auto simp: during_def)
  from list_inv_extends [OF L(1) assms(2)] L assms(2) show ?thesis
    unfolding during_def extends_def by (intro exI [of _ L]) simp
qed

lemma during_make_runnable:
  assumes dur: "during x h s" and run: "powertask_make_runnable i s = Inr (b, s')"
  shows "during x h s'"
proof -
  from dur obtain L where L: "list_inv s L" "hd L = h" "x \<in> set L"
    and cur: "runnable_tasks s = Some x \<or> (\<exists>c. runnable_tasks s = Some c \<and> before L x c)"
    by (auto simp: during_def)
  from cur obtain c where c: "runnable_tasks s = Some c" by auto
  from make_runnable_effect [OF run c list_inv_cursor(2,3) [OF L(1) c]]
  show ?thesis
  proof
    assume "s' = s" with dur show ?thesis by simp
  next
    assume "\<exists>t<length (tasks s). t_prev (tasks s ! t) = None \<and> inserted s c t s'"
    then obtain t where t: "t < length (tasks s)" "t_prev (tasks s ! t) = None"
      and ins: "inserted s c t s'" by auto
    from list_inv_inserted [OF L(1) ins c t] obtain A B where
      AB: "L = A @ c # B" and inv': "list_inv s' (A @ c # t # B)" by auto
    let ?L = "A @ c # t # B"
    have hd: "hd ?L = h" using AB L(2) by (cases A) auto
    have x: "x \<in> set ?L" using L(3) AB by auto
    have sub: "subseq L ?L" unfolding AB by (auto intro!: list_emb_append_mono)
    have ct: "before ?L c t"
      unfolding before_def by (intro exI [of _ A] exI [of _ "[]"] exI [of _ B]) simp
    from inv' have d: "distinct ?L" by (simp add: list_inv_def)
    have "before ?L x t"
    proof (cases "x = c")
      case True with ct show ?thesis by simp
    next
      case False
      with cur c have "before L x c" by auto
      then have "before ?L x c" using sub by (rule before_mono)
      from before_trans [OF d this ct] show ?thesis .
    qed
    moreover from ins have "runnable_tasks s' = Some t" by (simp add: inserted_def)
    ultimately show ?thesis unfolding during_def using inv' hd x by blast
  qed
qed

lemma during_app_step:
  assumes "app_step s s'" "during x h s"
  shows "during x h s'"
  using assms
proof (cases rule: app_step.cases)
  case (make i b)
  with assms show ?thesis by (auto intro: during_make_runnable)
next
  case (reg a)
  from assms(2) have "registered_tasks s \<noteq> None" by (auto simp: during_def list_inv_def)
  from register_extends [OF this reg] assms(2) show ?thesis by (rule during_extends [rotated])
next
  case (fill p k v)
  then show ?thesis using assms(2) by (auto intro: during_extends write_data_extends)
next
  case (energy e)
  then show ?thesis using assms(2) by (auto intro: during_extends energy_extends)
qed

lemma during_app_steps: "app_step\<^sup>*\<^sup>* s s' \<Longrightarrow> during x h s \<Longrightarrow> during x h s'"
  by (induction rule: rtranclp_induct) (auto intro: during_app_step)

lemma list_inv_during:
  assumes "list_inv s L" "runnable_tasks s = Some c"
  shows "during c (hd L) s"
  using assms list_inv_cursor(1) [OF assms] unfolding during_def by blast

lemma sched_inv_app_step:
  assumes "sched_inv s" "app_step s s'"
  shows "sched_inv s'"
proof (cases "pre_boot s")
  case True
  from assms(2) show ?thesis
  proof (cases rule: app_step.cases)
    case (make i b)
    with True show ?thesis
      by (simp add: pre_boot_def powertask_make_runnable_def powertask_task_lookup_def
          attribute_at_def task_at_def)
  next
    case (reg a)
    from first_register [OF True reg] show ?thesis unfolding sched_inv_def
      by (intro disjI2 exI [of _ "[1]"]) simp
  next
    case (fill p k v)
    with True show ?thesis
      by (auto simp: sched_inv_def pre_boot_def write_data_def split: sum.splits if_splits)
  next
    case (energy e)
    with True show ?thesis by (simp add: sched_inv_def pre_boot_def)
  qed
next
  case False
  with assms(1) obtain L where L: "list_inv s L" and hd: "hd L = 1" by (auto simp: sched_inv_def)
  then obtain c where c: "runnable_tasks s = Some c" by (auto simp: list_inv_def)
  from during_app_step [OF assms(2) list_inv_during [OF L c]] hd
  show ?thesis unfolding sched_inv_def during_def by auto
qed

lemma next_path_cursor [simp]:
  "next_path (s\<lparr>runnable_tasks := c\<rparr>) x as y = next_path s x as y"
  by (induction as arbitrary: x) auto

lemma list_inv_set_cursor:
  "list_inv s L \<Longrightarrow> y \<in> set L \<Longrightarrow> list_inv (s\<lparr>runnable_tasks := Some y\<rparr>) L"
  by (simp add: list_inv_def)

lemma advance_cursor_inv:
  assumes "list_inv s L" "runnable_tasks s = Some c"
  shows "\<exists>y \<in> set L. t_next (tasks s ! c) = Some y \<and>
           advance_cursor s = Inr (s\<lparr>runnable_tasks := Some y\<rparr>) \<and>
           list_inv (s\<lparr>runnable_tasks := Some y\<rparr>) L"
proof -
  from list_inv_cursor [OF assms] have c: "c \<in> set L" "c < length (tasks s)" by auto
  from next_in_cycle [OF assms(1) c(1)] obtain y where
    y: "y \<in> set L" "t_next (tasks s ! c) = Some y" by auto
  with assms c show ?thesis
    by (auto simp: advance_cursor_def task_at_def intro: list_inv_set_cursor)
qed

lemma call_function_steps:
  assumes "well_behaved app" "call_function app f inp outp s = Inr (r, s1)"
  shows "app_step\<^sup>*\<^sup>* s s1 \<and> (f = Fn_powertask_idle_task \<longrightarrow> r = POWERTASK_RESULT_RETRY)"
  using assms
  by (cases f) (auto simp: call_function_def powertask_idle_task_def well_behaved_def)

lemma remove_task_inv:
  assumes dur: "during x h s" and xh: "x \<noteq> h"
  shows "\<exists>s' L'. remove_task (Some x) s = Inr s' \<and> list_inv s' L' \<and> hd L' = h"
proof -
  from dur obtain L where L: "list_inv s L" "hd L = h" "x \<in> set L"
    and cur: "runnable_tasks s = Some x \<or> (\<exists>c. runnable_tasks s = Some c \<and> before L x c)"
    by (auto simp: during_def)
  from L(1) have d: "distinct L" and path: "next_path s (hd L) L (hd L)"
    and mem: "\<forall>x \<in> set L. t_prev (tasks s ! x) \<noteq> None"
    and tgt: "\<forall>x < length (tasks s). \<forall>p. t_prev (tasks s ! x) = Some p \<longrightarrow>
         p < length (tasks s) \<and> t_prev (tasks s ! p) \<noteq> None"
    and ord: "\<forall>x \<in> set (tl L). \<forall>p \<in> set L. t_prev (tasks s ! x) = Some p \<longrightarrow> before L p x"
    and ne: "L \<noteq> []"
    by (auto simp: list_inv_def)
  from path L(3) have xv: "x < length (tasks s)" by (rule next_path_valid)
  from mem L(3) obtain p where p: "t_prev (tasks s ! x) = Some p" by auto
  with tgt xv have pv: "p < length (tasks s)" by blast
  from L(3) xh L(2) have xt: "x \<in> set (tl L)" by (auto intro: hd_in_tl)
  have px: "p \<noteq> x"
  proof
    assume "p = x"
    with ord xt L(3) p have "before L x x" by blast
    with d show False by (auto dest: before_neq)
  qed
  from ne L(2) have "h \<in> set L" by auto
  with L(3) xh d have "1 < length L"
    by (cases L; cases "tl L") auto
  with next_in_cycle [OF L(1) L(3)] obtain y where
    y: "y \<in> set L" "t_next (tasks s ! x) = Some y" "y \<noteq> x" by auto
  from path y(1) have yv: "y < length (tasks s)" by (rule next_path_valid)
  from remove_task_effect [OF xv p pv px y(2) yv y(3)] obtain s' where
    s': "remove_task (Some x) s = Inr s'" "removed s x p y s'" by auto
  from list_inv_removed [OF L(1) L(3) _ s'(2) p y(2) cur] xh L(2)
  obtain L' where "list_inv s' L'" "hd L' = hd L" by auto
  with s' L(2) show ?thesis by auto
qed

lemma more_work_iff:
  assumes "list_inv s L"
  shows "\<exists>c r. runnable_tasks s = Some c \<and> task_at s (runnable_tasks s) = Inr r \<and>
           (runnable_tasks s \<noteq> t_next r) = (1 < length L)"
proof -
  from assms obtain c where c: "runnable_tasks s = Some c" by (auto simp: list_inv_def)
  from list_inv_cursor [OF assms c] have cL: "c \<in> set L" "c < length (tasks s)" by auto
  from next_in_cycle [OF assms cL(1)] obtain y where
    y: "y \<in> set L" "t_next (tasks s ! c) = Some y" "1 < length L \<longrightarrow> y \<noteq> c" by auto
  have "\<not> 1 < length L \<Longrightarrow> y = c"
    using y(1) cL(1) by (cases L; cases "tl L") auto
  with y c cL show ?thesis by (auto simp: task_at_def)
qed

lemma run_next_inv:
  assumes wb: "well_behaved app" and inv: "list_inv s L"
    and run: "powertask_run_next app s = Inr (b, s')"
  shows "\<exists>L'. list_inv s' L' \<and> hd L' = hd L \<and> b = (1 < length L')"
proof -
  from inv obtain c where c: "runnable_tasks s = Some c" by (auto simp: list_inv_def)
  from list_inv_cursor [OF inv c] have cL: "c \<in> set L" "c < length (tasks s)" by auto
  from run c have "\<exists>a. attribute_at s (Some c) = Inr a"
    by (auto simp: powertask_run_next_def Let_def split: sum.splits)
  with cL obtain a where a: "attribute (tasks s ! c) = Some a"
    by (auto simp: attribute_at_def task_at_def split: option.splits)
  define mid where "mid =
        (if powertask_current_battery s \<ge> minimum_battery a then
           (case call_function app (task_function a)
                   (t_input (tasks s ! c)) (t_output (tasks s ! c)) s of
              Inl e \<Rightarrow> Inl e
            | Inr (result, s1) \<Rightarrow>
                if result = POWERTASK_RESULT_RETRY then advance_cursor s1
                else if result = POWERTASK_RESULT_OK then remove_task (Some c) s1
                else if result \<ge> POWERTASK_RESULT_FAIL_QUIET \<and> result < POWERTASK_RESULT_FAIL_OUTPUT
                  then remove_task (Some c) s1
                else if result \<ge> POWERTASK_RESULT_FAIL_OUTPUT \<and> result < POWERTASK_RESULT_LAST
                  then remove_task (Some c) s1
                else Inl (Fatal ''task returned invalid result code'' result))
         else advance_cursor s)"
  from run c a cL have run': "(case mid of Inl e \<Rightarrow> Inl e
       | Inr s2 \<Rightarrow>
          (case task_at s2 (runnable_tasks s2) of
             Inl e \<Rightarrow> Inl e
           | Inr r \<Rightarrow> Inr (runnable_tasks s2 \<noteq> t_next r, s2))) = Inr (b, s')"
    by (cases "minimum_battery a \<le> powertask_current_battery s")
      (simp_all add: powertask_run_next_def attribute_at_def task_at_def Let_def mid_def)
  then obtain r where mid: "mid = Inr s'" and r: "task_at s' (runnable_tasks s') = Inr r"
    and b: "b = (runnable_tasks s' \<noteq> t_next r)"
    by (auto split: sum.splits)
  have "\<exists>L'. list_inv s' L' \<and> hd L' = hd L"
  proof (cases "powertask_current_battery s \<ge> minimum_battery a")
    case False
    with mid have "advance_cursor s = Inr s'" by (simp add: mid_def)
    with advance_cursor_inv [OF inv c] show ?thesis by auto
  next
    case True
    with mid obtain result s1 where
      call: "call_function app (task_function a) (t_input (tasks s ! c)) (t_output (tasks s ! c)) s
               = Inr (result, s1)"
      by (auto simp: mid_def split: sum.splits)
    from call_function_steps [OF wb call] have steps: "app_step\<^sup>*\<^sup>* s s1"
      and idle: "task_function a = Fn_powertask_idle_task \<Longrightarrow> result = POWERTASK_RESULT_RETRY"
      by auto
    from during_app_steps [OF steps list_inv_during [OF inv c]] have dur: "during c (hd L) s1" .
    show ?thesis
    proof (cases "result = POWERTASK_RESULT_RETRY")
      case True
      with mid \<open>powertask_current_battery s \<ge> minimum_battery a\<close> call
      have adv: "advance_cursor s1 = Inr s'" by (simp add: mid_def)
      from dur obtain L1 c1 where L1: "list_inv s1 L1" "hd L1 = hd L" "runnable_tasks s1 = Some c1"
        by (auto simp: during_def)
      from advance_cursor_inv [OF L1(1) L1(3)] adv L1(2) show ?thesis by auto
    next
      case False
      with mid \<open>powertask_current_battery s \<ge> minimum_battery a\<close> call
      have rem: "remove_task (Some c) s1 = Inr s'"
        by (auto simp: mid_def split: if_splits)
      have "c \<noteq> hd L"
      proof
        assume "c = hd L"
        with inv a have "a = attributes_idle_task" by (simp add: list_inv_def)
        with idle False show False by (simp add: attributes_idle_task_def)
      qed
      from remove_task_inv [OF dur this] rem show ?thesis by auto
    qed
  qed
  then obtain L' where L': "list_inv s' L'" "hd L' = hd L" by auto
  from more_work_iff [OF L'(1)] r b have "b = (1 < length L')" by auto
  with L' show ?thesis by blast
qed

lemma sched_inv_run_next:
  assumes "well_behaved app" "sched_inv s" "powertask_run_next app s = Inr (b, s')"
  shows "sched_inv s'"
proof (cases "pre_boot s")
  case True
  with assms(3) show ?thesis
    by (simp add: pre_boot_def powertask_run_next_def attribute_at_def task_at_def)
next
  case False
  with assms(2) obtain L where "list_inv s L" and hd: "hd L = 1" by (auto simp: sched_inv_def)
  from run_next_inv [OF assms(1) this(1) assms(3)] hd show ?thesis by (auto simp: sched_inv_def)
qed

lemma reachable_sched_inv:
  assumes "well_behaved app" "reachable app s"
  shows "sched_inv s"
  using assms(2)
proof (induction rule: reachable.induct)
  case init
  show ?case by (simp add: sched_inv_def pre_boot_def initial_state_def)
next
  case (app s s')
  then show ?case by (auto intro: sched_inv_app_step)
next
  case (run s b s')
  with assms(1) show ?case by (auto intro: sched_inv_run_next)
qed

lemma reachable_list_inv:
  assumes "well_behaved app" "reachable app s" "registered_tasks s \<noteq> None"
  shows "\<exists>L. list_inv s L \<and> hd L = 1"
  using reachable_sched_inv [OF assms(1,2)] assms(3) by (auto simp: sched_inv_def pre_boot_def)

lemma members_of_list_inv:
  assumes "list_inv s L"
  shows "set (runnable_members s) = set L \<and> length (runnable_members s) = length L
     \<and> runnable_tasks s = Some (hd (runnable_members s))"
proof -
  from assms obtain c where c: "runnable_tasks s = Some c" "c \<in> set L" by (auto simp: list_inv_def)
  then obtain A B where L: "L = A @ c # B" by (auto dest: split_list)
  from members_rotation [OF assms c(1) L] L c show ?thesis by auto
qed

lemma members_advance:
  assumes inv: "list_inv s L" and c: "runnable_tasks s = Some c"
    and y: "t_next (tasks s ! c) = Some y"
  shows "runnable_members (s\<lparr>runnable_tasks := Some y\<rparr>) = rotate1 (runnable_members s)"
proof -
  from advance_cursor_inv [OF inv c] y have yL: "y \<in> set L"
    and inv': "list_inv (s\<lparr>runnable_tasks := Some y\<rparr>) L" by auto
  from list_inv_cursor [OF inv c] obtain A B where L: "L = A @ c # B" by (auto dest: split_list)
  from inv have d: "distinct L" and path: "next_path s (hd L) L (hd L)" by (auto simp: list_inv_def)
  from path L y have yB: "next_path s y B (hd L)" by (auto simp: next_path_append)
  have m: "runnable_members s = c # B @ A" by (rule members_rotation [OF inv c L])
  show ?thesis
  proof (cases B)
    case (Cons b B')
    with yB have "y = b" by simp
    with L Cons have "L = (A @ [c]) @ y # B'" by simp
    from members_rotation [OF inv' _ this] m Cons \<open>y = b\<close> show ?thesis by simp
  next
    case Nil
    with yB have yh: "y = hd L" by simp
    show ?thesis
    proof (cases A)
      case Nil
      with L \<open>B = []\<close> yh have "y = c" "L = [] @ y # []" by auto
      from members_rotation [OF inv' _ this(2)] m Nil \<open>B = []\<close> \<open>y = c\<close> show ?thesis by simp
    next
      case (Cons a A')
      with L \<open>B = []\<close> yh have "L = [] @ y # (A' @ [c])" "a = y" by auto
      from members_rotation [OF inv' _ this(1)] m Cons \<open>B = []\<close> \<open>a = y\<close> show ?thesis by simp
    qed
  qed
qed

lemma registered_only_inv: "registered_only s \<Longrightarrow> list_inv s [1]"
proof (induction rule: registered_only.induct)
  case (first a s)
  have "pre_boot initial_state" by (simp add: pre_boot_def initial_state_def)
  from first_register [OF this first] show ?case by simp
next
  case (later s a s')
  then have "registered_tasks s \<noteq> None" by (simp add: list_inv_def)
  from list_inv_extends [OF later.IH register_extends [OF this later.hyps(2)]] show ?case .
qed

lemma idle_alone_step:
  assumes "list_inv s [1]"
  shows "powertask_run_next app s = Inr (False, s)"
proof -
  from assms have c: "runnable_tasks s = Some 1" and v: "1 < length (tasks s)"
    and a: "attribute (tasks s ! 1) = Some attributes_idle_task"
    and n: "t_next (tasks s ! 1) = Some 1"
    by (auto simp: list_inv_def)
  have "s\<lparr>runnable_tasks := Some (Suc 0)\<rparr> = s" using c by simp
  with c v a n show ?thesis
    by (simp add: powertask_run_next_def attribute_at_def task_at_def Let_def
        attributes_idle_task_def call_function_def powertask_idle_task_def advance_cursor_def)
qed

lemma well_behaved_example_ABC: "well_behaved example_ABC"
  unfolding well_behaved_def
proof (intro allI impI)
  fix n inp outp s r s'
  assume run: "example_ABC n inp outp s = Inr (r, s')"
  consider "n = 0" | "n = 1" | "n \<noteq> 0 \<and> n \<noteq> 1" by auto
  then show "app_step\<^sup>*\<^sup>* s s'"
  proof cases
    case 1
    with run obtain s1 Bin s2 where
      "write_data outp 0 0x41 s = Inr s1"
      "powertask_make_runnable 0xB007 s1 = Inr (Bin, s2)"
      "write_data Bin 0 0x42 s2 = Inr s'"
      by (auto simp: example_ABC_def function_A_def function_A_returning_def split: sum.splits)
    then have "app_step s s1" "app_step s1 s2" "app_step s2 s'"
      by (auto intro: app_step.intros)
    then show ?thesis by auto
  next
    case 2
    with run have "\<exists>v. write_data outp 0 v s = Inr s'"
      by (auto simp: example_ABC_def function_B_def split: sum.splits if_splits)
    then show ?thesis by (auto intro: app_step.intros)
  next
    case 3
    with run show ?thesis by (simp add: example_ABC_def)
  qed
qed

lemma reachable_registered_state: "reachable example_ABC registered_state"
proof -
  from main_registered_eq obtain s1 where
    "powertask_register attributes_A initial_state = Inr s1"
    "powertask_register attributes_B s1 = Inr registered_state"
    by (auto simp: main_registered_def split: sum.splits)
  then have "app_step initial_state s1" "app_step s1 registered_state"
    by (auto intro: app_step.intros)
  then show ?thesis by (blast intro: reachable.intros)
qed

lemma registered_only_registered_state: "registered_only registered_state"
proof -
  from main_registered_eq obtain s1 where
    "powertask_register attributes_A initial_state = Inr s1"
    "powertask_register attributes_B s1 = Inr registered_state"
    by (auto simp: main_registered_def split: sum.splits)
  then show ?thesis by (blast intro: registered_only.intros)
qed

lemma reachable_main_state: "reachable example_ABC main_state"
proof -
  have "powertask_make_runnable 0xA123 registered_state = Inr (Some 2, main_state)"
    by code_simp
  then have "app_step registered_state main_state" by (rule app_step.make)
  with reachable_registered_state show ?thesis by (rule reachable.app)
qed

section \<open>The order of the selections\<close>

lemma members_cong:
  assumes "list_inv s L" "list_inv s' L" "runnable_tasks s' = runnable_tasks s"
  shows "runnable_members s' = runnable_members s"
proof -
  from assms obtain c where c: "runnable_tasks s = Some c" "c \<in> set L" by (auto simp: list_inv_def)
  then obtain A B where L: "L = A @ c # B" by (auto dest: split_list)
  from members_rotation [OF assms(1) c(1) L] members_rotation [OF assms(2) _ L] assms(3) c
  show ?thesis by simp
qed

lemma members_linked:
  assumes "list_inv s L" "x \<in> set (runnable_members s)"
  shows "linked s x"
proof -
  from members_of_list_inv [OF assms(1)] assms(2) have x: "x \<in> set L" by simp
  from assms(1) have "next_path s (hd L) L (hd L)" by (simp add: list_inv_def)
  from next_path_valid [OF this x] x assms(1) show ?thesis by (auto simp: linked_def list_inv_def)
qed

lemma members_distinct:
  assumes "list_inv s L"
  shows "distinct (runnable_members s)"
proof -
  from assms obtain c where c: "runnable_tasks s = Some c" "c \<in> set L" by (auto simp: list_inv_def)
  then obtain A B where L: "L = A @ c # B" by (auto dest: split_list)
  from assms have "distinct L" by (simp add: list_inv_def)
  with members_rotation [OF assms c(1) L] L show ?thesis by auto
qed

lemma members_inserted:
  assumes inv: "list_inv s L" and ins: "inserted s c t s'"
    and cur: "runnable_tasks s = Some c"
    and t: "t < length (tasks s)" "t_prev (tasks s ! t) = None"
  shows "runnable_members s' = t # tl (runnable_members s) @ [c] \<and> (\<exists>L'. list_inv s' L' \<and> hd L' = hd L)"
proof -
  from list_inv_inserted [OF inv ins cur t] obtain A B where
    L: "L = A @ c # B" and inv': "list_inv s' (A @ c # t # B)" by auto
  from ins have c': "runnable_tasks s' = Some t" by (simp add: inserted_def)
  have "A @ c # t # B = (A @ [c]) @ t # B" by simp
  from members_rotation [OF inv' c' this] members_rotation [OF inv cur L]
  have "runnable_members s' = t # tl (runnable_members s) @ [c]" by simp
  moreover have "hd (A @ c # t # B) = hd L" using L by (cases A) auto
  ultimately show ?thesis using inv' by blast
qed

lemma linked_inserted:
  "inserted s c t s' \<Longrightarrow> linked s x \<Longrightarrow> linked s' x"
  by (auto simp: inserted_def linked_def)

lemma linked_removed:
  "removed s x p y s' \<Longrightarrow> linked s z \<Longrightarrow> linked s' z"
  by (auto simp: removed_def linked_def)

lemma linked_extends:
  "extends s s' \<Longrightarrow> linked s x \<Longrightarrow> linked s' x"
  by (auto simp: extends_def linked_def)

lemma linked_cursor [simp]: "linked (s\<lparr>runnable_tasks := c\<rparr>) x = linked s x"
  by (simp add: linked_def)

lemma members_removed:
  assumes inv: "list_inv s L" and xL: "x \<in> set L" and xh: "x \<noteq> hd L"
    and rem: "removed s x p y s'"
    and p: "t_prev (tasks s ! x) = Some p" and y: "t_next (tasks s ! x) = Some y"
    and cur: "runnable_tasks s = Some x \<or> (\<exists>c. runnable_tasks s = Some c \<and> before L x c)"
  shows "subseq (runnable_members s')
           (if runnable_tasks s = Some x then rotate1 (runnable_members s) else runnable_members s)"
proof -
  from list_inv_removed [OF inv xL xh rem p y cur] obtain L' where
    inv': "list_inv s' L'" and
    shape: "(p \<notin> set L \<and> L' = L) \<or> (\<exists>A G C. L = A @ p # G @ x # C \<and> L' = A @ p # C)"
    by auto
  from rem have cu: "runnable_tasks s' = (if runnable_tasks s = Some x then Some y else runnable_tasks s)"
    by (simp add: removed_def)
  from inv have d: "distinct L" and path: "next_path s (hd L) L (hd L)" by (auto simp: list_inv_def)
  from shape show ?thesis
  proof
    assume same: "p \<notin> set L \<and> L' = L"
    show ?thesis
    proof (cases "runnable_tasks s = Some x")
      case True
      from advance_cursor_inv [OF inv True] y have
        "list_inv (s\<lparr>runnable_tasks := Some y\<rparr>) L" by auto
      from members_cong [OF this] inv' same cu True
      have "runnable_members s' = runnable_members (s\<lparr>runnable_tasks := Some y\<rparr>)" by simp
      with members_advance [OF inv True y] True show ?thesis by simp
    next
      case False
      with members_cong [OF inv] inv' same cu show ?thesis by simp
    qed
  next
    assume "\<exists>A G C. L = A @ p # G @ x # C \<and> L' = A @ p # C"
    then obtain A G C where L: "L = A @ p # G @ x # C" and L': "L' = A @ p # C" by auto
    show ?thesis
    proof (cases "runnable_tasks s = Some x")
      case True
      have Lx: "L = (A @ p # G) @ x # C" using L by simp
      from members_rotation [OF inv True Lx] have m: "runnable_members s = x # C @ A @ p # G" by simp
      from path Lx y have yC: "next_path s y C (hd L)" by (auto simp: next_path_append)
      from cu True have c': "runnable_tasks s' = Some y" by simp
      have "runnable_members s' = C @ A @ [p]"
      proof (cases C)
        case (Cons b C')
        with yC have "y = b" by simp
        with L' Cons have "L' = (A @ [p]) @ y # C'" by simp
        from members_rotation [OF inv' c' this] Cons \<open>y = b\<close> show ?thesis by simp
      next
        case Nil
        with yC have yh: "y = hd L" by simp
        show ?thesis
        proof (cases A)
          case Nil
          with L yh L' \<open>C = []\<close> have "y = p" "L' = [] @ y # []" by auto
          from members_rotation [OF inv' c' this(2)] Nil \<open>C = []\<close> \<open>y = p\<close> show ?thesis by simp
        next
          case (Cons a A')
          with L yh L' \<open>C = []\<close> have "L' = [] @ y # (A' @ [p])" "a = y" by auto
          from members_rotation [OF inv' c' this(1)] Cons \<open>C = []\<close> \<open>a = y\<close> show ?thesis by simp
        qed
      qed
      moreover have "subseq (C @ A @ [p]) (C @ A @ p # G @ [x])"
        by (intro list_emb_append_mono subseq_order.refl) simp
      ultimately show ?thesis using True m by simp
    next
      case False
      with cur obtain c where c: "runnable_tasks s = Some c" "before L x c" by auto
      have "c \<in> set C" using after_in_suffix [of "A @ p # G" x C c] d c L by simp
      then obtain U V where C: "C = U @ c # V" by (auto dest: split_list)
      have "L = (A @ p # G @ x # U) @ c # V" using L C by simp
      from members_rotation [OF inv c(1) this]
      have m: "runnable_members s = c # V @ A @ p # G @ x # U" by simp
      from cu False c have c': "runnable_tasks s' = Some c" by simp
      have "L' = (A @ p # U) @ c # V" using L' C by simp
      from members_rotation [OF inv' c' this]
      have m': "runnable_members s' = c # V @ A @ p # U" by simp
      have "subseq U ((G @ [x]) @ U)" by (rule subseq_drop_many) simp
      then have "subseq ((c # V @ A @ [p]) @ U) ((c # V @ A @ [p]) @ (G @ [x]) @ U)"
        by (simp only: subseq_append')
      then have "subseq (c # V @ A @ p # U) (c # V @ A @ p # G @ x # U)" by simp
      with m m' False show ?thesis by simp
    qed
  qed
qed

lemma members_nonempty:
  assumes "list_inv s L" shows "runnable_members s \<noteq> []"
  using members_of_list_inv [OF assms] assms by (auto simp: list_inv_def)

lemma spliced_refl:
  assumes "list_inv s L" shows "spliced s s"
  unfolding spliced_def using members_nonempty [OF assms]
  by (intro exI [of _ "[]"]) simp

lemma members_extends:
  assumes "list_inv s L" "extends s s'"
  shows "runnable_members s' = runnable_members s"
  using members_cong [OF assms(1) list_inv_extends [OF assms]] assms(2)
  by (simp add: extends_def)

lemma spliced_extends:
  assumes "spliced s0 s1" "list_inv s1 L" "extends s1 s2"
  shows "spliced s0 s2"
  using assms members_extends [OF assms(2,3)] linked_extends [OF assms(3)]
  unfolding spliced_def by auto

lemma spliced_app_step:
  assumes step: "app_step s1 s2" and dur: "during x h s1" and sp: "spliced s0 s1"
  shows "spliced s0 s2"
proof -
  from dur obtain L where L: "list_inv s1 L" by (auto simp: during_def)
  from step show ?thesis
  proof (cases rule: app_step.cases)
    case (make i b)
    from L obtain c where c: "runnable_tasks s1 = Some c" by (auto simp: list_inv_def)
    from make_runnable_effect [OF make c list_inv_cursor(2,3) [OF L c]]
    show ?thesis
    proof
      assume "s2 = s1" with sp show ?thesis by simp
    next
      assume "\<exists>t<length (tasks s1). t_prev (tasks s1 ! t) = None \<and> inserted s1 c t s2"
      then obtain t where t: "t < length (tasks s1)" "t_prev (tasks s1 ! t) = None"
        and ins: "inserted s1 c t s2" by auto
      from members_inserted [OF L ins c t]
      have m2: "runnable_members s2 = t # tl (runnable_members s1) @ [c]" by simp
      from members_of_list_inv [OF L] c have hd1: "hd (runnable_members s1) = c" by simp
      from sp obtain Vs where
        m1: "runnable_members s1 = last (hd (runnable_members s0) # Vs) # tl (runnable_members s0)
               @ butlast (hd (runnable_members s0) # Vs)"
        and fresh: "\<forall>v \<in> set Vs. \<not> linked s0 v" and mono: "\<forall>x. linked s0 x \<longrightarrow> linked s1 x"
        by (auto simp: spliced_def)
      from t have "\<not> linked s1 t" by (simp add: linked_def)
      with mono have tf: "\<not> linked s0 t" by blast
      from m1 hd1 have c_eq: "c = last (hd (runnable_members s0) # Vs)" by simp
      have "runnable_members s2 =
          last (hd (runnable_members s0) # Vs @ [t]) # tl (runnable_members s0)
               @ butlast (hd (runnable_members s0) # Vs @ [t])"
        unfolding m2 using m1 c_eq
        by (simp add: butlast_append)
      moreover have "\<forall>v \<in> set (Vs @ [t]). \<not> linked s0 v" using fresh tf by simp
      moreover have "\<forall>x. linked s0 x \<longrightarrow> linked s2 x"
        using mono linked_inserted [OF ins] by blast
      ultimately show ?thesis unfolding spliced_def by blast
    qed
  next
    case (reg a)
    from L have "registered_tasks s1 \<noteq> None" by (simp add: list_inv_def)
    from spliced_extends [OF sp L register_extends [OF this reg]] show ?thesis .
  next
    case (fill p k v)
    from spliced_extends [OF sp L write_data_extends [OF fill]] show ?thesis .
  next
    case (energy e)
    from spliced_extends [OF sp L energy_extends] energy show ?thesis by simp
  qed
qed

lemma spliced_app_steps:
  "app_step\<^sup>*\<^sup>* s1 s2 \<Longrightarrow> during x h s1 \<Longrightarrow> spliced s0 s1 \<Longrightarrow> spliced s0 s2 \<and> during x h s2"
  by (induction rule: rtranclp_induct) (auto intro: spliced_app_step during_app_step)

lemma remove_task_members:
  assumes dur: "during x h s" and xh: "x \<noteq> h"
  shows "\<exists>s'. remove_task (Some x) s = Inr s' \<and>
           subseq (runnable_members s')
             (if runnable_tasks s = Some x then rotate1 (runnable_members s)
              else runnable_members s) \<and>
           (\<forall>z. linked s z \<longrightarrow> linked s' z)"
proof -
  from dur obtain L where L: "list_inv s L" "hd L = h" "x \<in> set L"
    and cur: "runnable_tasks s = Some x \<or> (\<exists>c. runnable_tasks s = Some c \<and> before L x c)"
    by (auto simp: during_def)
  from L(1) have d: "distinct L" and path: "next_path s (hd L) L (hd L)"
    and mem: "\<forall>x \<in> set L. t_prev (tasks s ! x) \<noteq> None"
    and tgt: "\<forall>x < length (tasks s). \<forall>p. t_prev (tasks s ! x) = Some p \<longrightarrow>
         p < length (tasks s) \<and> t_prev (tasks s ! p) \<noteq> None"
    and ord: "\<forall>x \<in> set (tl L). \<forall>p \<in> set L. t_prev (tasks s ! x) = Some p \<longrightarrow> before L p x"
    and ne: "L \<noteq> []"
    by (auto simp: list_inv_def)
  from path L(3) have xv: "x < length (tasks s)" by (rule next_path_valid)
  from mem L(3) obtain p where p: "t_prev (tasks s ! x) = Some p" by auto
  with tgt xv have pv: "p < length (tasks s)" by blast
  from L(3) xh L(2) have xt: "x \<in> set (tl L)" by (auto intro: hd_in_tl)
  have px: "p \<noteq> x"
  proof
    assume "p = x"
    with ord xt L(3) p have "before L x x" by blast
    with d show False by (auto dest: before_neq)
  qed
  from ne L(2) have "h \<in> set L" by auto
  with L(3) xh d have "1 < length L"
    by (cases L; cases "tl L") auto
  with next_in_cycle [OF L(1) L(3)] obtain y where
    y: "y \<in> set L" "t_next (tasks s ! x) = Some y" "y \<noteq> x" by auto
  from path y(1) have yv: "y < length (tasks s)" by (rule next_path_valid)
  from remove_task_effect [OF xv p pv px y(2) yv y(3)] obtain s' where
    s': "remove_task (Some x) s = Inr s'" "removed s x p y s'" by auto
  from xh L(2) have xh': "x \<noteq> hd L" by simp
  from members_removed [OF L(1) L(3) xh' s'(2) p y(2) cur] linked_removed [OF s'(2)] s'(1)
  show ?thesis by blast
qed

lemma filter_linked_spliced:
  assumes fresh: "\<forall>v \<in> set Vs. \<not> P v" and c: "P c"
  shows "filter P (R @ c # Vs) = filter P R @ [c]"
  using assms by (simp add: filter_empty_conv)

lemma run_next_members:
  assumes wb: "well_behaved app" and inv: "list_inv s L"
    and run: "powertask_run_next app s = Inr (b, s')"
  shows "subseq (filter (linked s) (runnable_members s')) (rotate1 (runnable_members s)) \<and>
         (\<forall>x. linked s x \<longrightarrow> linked s' x)"
proof -
  from inv obtain c where c: "runnable_tasks s = Some c" by (auto simp: list_inv_def)
  from list_inv_cursor [OF inv c] have cL: "c \<in> set L" "c < length (tasks s)" by auto
  from members_of_list_inv [OF inv] c have hdR: "hd (runnable_members s) = c" by simp
  from members_nonempty [OF inv] hdR
  have R: "runnable_members s = c # tl (runnable_members s)" by (cases "runnable_members s") auto
  have cl: "linked s c" using members_linked [OF inv] R by (metis list.set_intros(1))
  from run c have "\<exists>a. attribute_at s (Some c) = Inr a"
    by (auto simp: powertask_run_next_def Let_def split: sum.splits)
  with cL obtain a where a: "attribute (tasks s ! c) = Some a"
    by (auto simp: attribute_at_def task_at_def split: option.splits)
  define mid where "mid =
        (if powertask_current_battery s \<ge> minimum_battery a then
           (case call_function app (task_function a)
                   (t_input (tasks s ! c)) (t_output (tasks s ! c)) s of
              Inl e \<Rightarrow> Inl e
            | Inr (result, s1) \<Rightarrow>
                if result = POWERTASK_RESULT_RETRY then advance_cursor s1
                else if result = POWERTASK_RESULT_OK then remove_task (Some c) s1
                else if result \<ge> POWERTASK_RESULT_FAIL_QUIET \<and> result < POWERTASK_RESULT_FAIL_OUTPUT
                  then remove_task (Some c) s1
                else if result \<ge> POWERTASK_RESULT_FAIL_OUTPUT \<and> result < POWERTASK_RESULT_LAST
                  then remove_task (Some c) s1
                else Inl (Fatal ''task returned invalid result code'' result))
         else advance_cursor s)"
  from run c a cL have run': "(case mid of Inl e \<Rightarrow> Inl e
       | Inr s2 \<Rightarrow>
          (case task_at s2 (runnable_tasks s2) of
             Inl e \<Rightarrow> Inl e
           | Inr r \<Rightarrow> Inr (runnable_tasks s2 \<noteq> t_next r, s2))) = Inr (b, s')"
    by (cases "minimum_battery a \<le> powertask_current_battery s")
      (simp_all add: powertask_run_next_def attribute_at_def task_at_def Let_def mid_def)
  then have mid: "mid = Inr s'" by (auto split: sum.splits)
  show ?thesis
  proof (cases "powertask_current_battery s \<ge> minimum_battery a")
    case False
    with mid have "advance_cursor s = Inr s'" by (simp add: mid_def)
    with advance_cursor_inv [OF inv c] obtain y where
      y: "t_next (tasks s ! c) = Some y" "s' = s\<lparr>runnable_tasks := Some y\<rparr>" by auto
    from members_advance [OF inv c y(1)] y(2) show ?thesis by simp
  next
    case True
    with mid obtain result s1 where
      call: "call_function app (task_function a) (t_input (tasks s ! c)) (t_output (tasks s ! c)) s
               = Inr (result, s1)"
      by (auto simp: mid_def split: sum.splits)
    from call_function_steps [OF wb call] have steps: "app_step\<^sup>*\<^sup>* s s1"
      and idle: "task_function a = Fn_powertask_idle_task \<Longrightarrow> result = POWERTASK_RESULT_RETRY"
      by auto
    from spliced_app_steps [OF steps list_inv_during [OF inv c] spliced_refl [OF inv]]
    have sp: "spliced s s1" and dur: "during c (hd L) s1" by auto
    from sp hdR obtain Vs where
      m1: "runnable_members s1 = last (c # Vs) # tl (runnable_members s) @ butlast (c # Vs)"
      and fresh: "\<forall>v \<in> set Vs. \<not> linked s v" and mono: "\<forall>x. linked s x \<longrightarrow> linked s1 x"
      by (auto simp: spliced_def)
    from dur obtain L1 where L1: "list_inv s1 L1" by (auto simp: during_def)
    from members_of_list_inv [OF L1] m1 have c1: "runnable_tasks s1 = Some (last (c # Vs))" by simp
    have rot1: "rotate1 (runnable_members s1) = tl (runnable_members s) @ c # Vs"
      unfolding m1 by (simp add: butlast_append)
    have frot: "filter (linked s) (rotate1 (runnable_members s1))
          = filter (linked s) (tl (runnable_members s)) @ [c]"
      unfolding rot1 using fresh cl by (rule filter_linked_spliced)
    have target: "subseq (filter (linked s) (tl (runnable_members s)) @ [c])
          (rotate1 (runnable_members s))"
      by (subst (2) R) (simp add: list_emb_append_mono)
    show ?thesis
    proof (cases "result = POWERTASK_RESULT_RETRY")
      case True
      with mid \<open>powertask_current_battery s \<ge> minimum_battery a\<close> call
      have adv: "advance_cursor s1 = Inr s'" by (simp add: mid_def)
      with advance_cursor_inv [OF L1 c1] obtain y where
        y: "t_next (tasks s1 ! last (c # Vs)) = Some y" "s' = s1\<lparr>runnable_tasks := Some y\<rparr>"
        by auto
      from members_advance [OF L1 c1 y(1)] y(2)
      have "runnable_members s' = rotate1 (runnable_members s1)" by simp
      with frot target mono y(2) show ?thesis by simp
    next
      case False
      with mid \<open>powertask_current_battery s \<ge> minimum_battery a\<close> call
      have rem: "remove_task (Some c) s1 = Inr s'"
        by (auto simp: mid_def split: if_splits)
      have "c \<noteq> hd L"
      proof
        assume "c = hd L"
        with inv a have "a = attributes_idle_task" by (simp add: list_inv_def)
        with idle False show False by (simp add: attributes_idle_task_def)
      qed
      from remove_task_members [OF dur this] rem have
        sub: "subseq (runnable_members s')
             (if runnable_tasks s1 = Some c then rotate1 (runnable_members s1)
              else runnable_members s1)"
        and mono': "\<forall>z. linked s1 z \<longrightarrow> linked s' z" by auto
      have "subseq (filter (linked s) (runnable_members s'))
              (filter (linked s) (tl (runnable_members s)) @ [c])"
      proof (cases Vs rule: rev_cases)
        case Nil
        with c1 sub have "subseq (runnable_members s') (rotate1 (runnable_members s1))" by simp
        then have "subseq (filter (linked s) (runnable_members s'))
            (filter (linked s) (rotate1 (runnable_members s1)))" by (rule subseq_filter)
        with frot show ?thesis by simp
      next
        case (snoc Ws w)
        with fresh cl have "w \<noteq> c" by auto
        with c1 snoc sub have "subseq (runnable_members s') (runnable_members s1)" by simp
        then have "subseq (filter (linked s) (runnable_members s'))
            (filter (linked s) (runnable_members s1))" by simp
        moreover have "filter (linked s) (runnable_members s1)
            = filter (linked s) (tl (runnable_members s)) @ [c]"
          unfolding m1 using snoc fresh cl by (simp add: butlast_append filter_empty_conv)
        ultimately show ?thesis by simp
      qed
      from subseq_order.trans [OF this target] mono mono' show ?thesis by blast
    qed
  qed
qed

lemma quiet_step_extends:
  assumes "quiet_step s s'" "list_inv s L"
  shows "extends s s'"
  using assms
proof (cases rule: quiet_step.cases)
  case (reg a)
  from assms(2) have "registered_tasks s \<noteq> None" by (simp add: list_inv_def)
  from register_extends [OF this reg] show ?thesis .
next
  case (fill p k v)
  then show ?thesis by (rule write_data_extends)
next
  case (energy e)
  then show ?thesis by (simp add: energy_extends)
qed

lemma before_snoc:
  assumes "before (xs @ [c]) u t" "t \<noteq> c"
  shows "before xs u t"
proof -
  from assms(1) obtain A G C where eq: "xs @ [c] = A @ u # G @ t # C" by (auto simp: before_def)
  show ?thesis
  proof (cases C rule: rev_cases)
    case Nil
    with eq have "xs @ [c] = (A @ u # G) @ [t]" by simp
    then have "c = t" by (simp only: append1_eq_conv)
    with assms(2) show ?thesis by simp
  next
    case (snoc C' z)
    with eq have "xs @ [c] = (A @ u # G @ t # C') @ [z]" by simp
    then have "xs = A @ u # G @ t # C'" by (simp only: append1_eq_conv)
    then show ?thesis unfolding before_def by blast
  qed
qed

lemma before_Cons: "before xs u t \<Longrightarrow> before (c # xs) u t"
  unfolding before_def by (metis append_Cons)

lemma before_hd: "t \<in> set xs \<Longrightarrow> before (c # xs) c t"
  unfolding before_def by (metis append_Nil split_list)

lemma before_filter:
  assumes "before R u t" "P u" "P t"
  shows "before (filter P R) u t"
proof -
  from assms(1) have "subseq [u, t] R" by (simp add: before_subseq)
  then have "subseq (filter P [u, t]) (filter P R)" by (rule subseq_filter)
  with assms(2,3) show ?thesis by (simp add: before_subseq)
qed

lemma selections_order:
  assumes wb: "well_behaved app"
  shows "selections app T s xs s2 \<Longrightarrow> \<exists>L. list_inv s L \<Longrightarrow> linked s T \<Longrightarrow>
     T \<in> set (runnable_members s2) \<Longrightarrow> T \<notin> set xs \<Longrightarrow>
     T \<in> set (runnable_members s) \<and>
     (\<forall>U \<in> set xs. linked s U \<longrightarrow> before (runnable_members s) U T) \<and>
     distinct (filter (linked s) xs)"
proof (induction rule: selections.induct)
  case (stop s)
  then show ?case by simp
next
  case (quiet s s1 xs s2)
  from quiet.prems obtain L where L: "list_inv s L" by auto
  from quiet_step_extends [OF quiet.hyps(1) L] have ext: "extends s s1" .
  from list_inv_extends [OF L ext] have L1: "list_inv s1 L" .
  from members_extends [OF L ext] have m: "runnable_members s1 = runnable_members s" .
  have mono: "\<And>x. linked s x \<Longrightarrow> linked s1 x" using linked_extends [OF ext] .
  from quiet.IH L1 mono [OF quiet.prems(2)] quiet.prems(3,4) have
    ih: "T \<in> set (runnable_members s1)"
      "\<forall>U \<in> set xs. linked s1 U \<longrightarrow> before (runnable_members s1) U T"
      "distinct (filter (linked s1) xs)" by auto
  have "filter (linked s) xs = filter (linked s) (filter (linked s1) xs)"
    using mono by (auto intro: filter_cong)
  with ih(3) have "distinct (filter (linked s) xs)" by (metis distinct_filter)
  with ih m mono show ?case by auto
next
  case (make i s p s1 xs s2)
  from make.prems obtain L where L: "list_inv s L" by auto
  from L obtain c where c: "runnable_tasks s = Some c" by (auto simp: list_inv_def)
  from make_runnable_effect [OF make.hyps(1) c list_inv_cursor(2,3) [OF L c]]
  show ?case
  proof
    assume "s1 = s"
    with make.IH make.prems show ?thesis by simp
  next
    assume "\<exists>t<length (tasks s). t_prev (tasks s ! t) = None \<and> inserted s c t s1"
    then obtain t where t: "t < length (tasks s)" "t_prev (tasks s ! t) = None"
      and ins: "inserted s c t s1" by auto
    from t have tn: "\<not> linked s t" by (simp add: linked_def)
    with make.prems(2) have tT: "t \<noteq> T" by auto
    have "s1 \<noteq> s" using ins t by (auto simp: inserted_def)
    with make.hyps(2) c have cT: "c \<noteq> T" by simp
    from members_inserted [OF L ins c t] obtain L1 where
      m1: "runnable_members s1 = t # tl (runnable_members s) @ [c]" and L1: "list_inv s1 L1"
      by auto
    have mono: "\<And>x. linked s x \<Longrightarrow> linked s1 x" using linked_inserted [OF ins] .
    from make.IH L1 mono [OF make.prems(2)] make.prems(3,4) have
      ih: "T \<in> set (runnable_members s1)"
        "\<forall>U \<in> set xs. linked s1 U \<longrightarrow> before (runnable_members s1) U T"
        "distinct (filter (linked s1) xs)" by auto
    let ?R = "runnable_members s"
    from members_of_list_inv [OF L] c have hdR: "hd ?R = c" by simp
    from members_nonempty [OF L] hdR have R: "?R = c # tl ?R" by (cases ?R) auto
    from ih(1) m1 tT cT have Ttl: "T \<in> set (tl ?R)" by simp
    then have TR: "T \<in> set ?R" by (subst R) simp
    have each: "before ?R U T" if U: "U \<in> set xs" "linked s U" for U
    proof -
      from ih(2) U mono have "before (runnable_members s1) U T" by blast
      with m1 have b1: "before (t # tl ?R @ [c]) U T" by simp
      from U(2) tn have "U \<noteq> t" by auto
      with b1 tT have "before (tl ?R @ [c]) U T"
        unfolding before_def by (auto simp: Cons_eq_append_conv)
      from before_snoc [OF this] cT have "before (tl ?R) U T" by simp
      from before_Cons [OF this, of c] R show ?thesis by simp
    qed
    have "filter (linked s) xs = filter (linked s) (filter (linked s1) xs)"
      using mono by (auto intro: filter_cong)
    with ih(3) have "distinct (filter (linked s) xs)" by (metis distinct_filter)
    with TR each show ?thesis by blast
  qed
next
  case (step s c b s1 xs s2)
  from step.prems obtain L where L: "list_inv s L" by auto
  from run_next_inv [OF wb L step.hyps(2)] obtain L1 where L1: "list_inv s1 L1" by auto
  from run_next_members [OF wb L step.hyps(2)] have
    sub: "subseq (filter (linked s) (runnable_members s1)) (rotate1 (runnable_members s))"
    and mono: "\<And>x. linked s x \<Longrightarrow> linked s1 x" by auto
  from step.prems(4) have cT: "c \<noteq> T" and Txs: "T \<notin> set xs" by auto
  from step.IH L1 mono [OF step.prems(2)] step.prems(3) Txs have
    ih: "T \<in> set (runnable_members s1)"
      "\<forall>U \<in> set xs. linked s1 U \<longrightarrow> before (runnable_members s1) U T"
      "distinct (filter (linked s1) xs)" by auto
  let ?R = "runnable_members s"
  from members_of_list_inv [OF L] step.hyps(1) have hdR: "hd ?R = c" by simp
  from members_nonempty [OF L] hdR have R: "?R = c # tl ?R" by (cases ?R) auto
  have dR: "distinct ?R" by (rule members_distinct [OF L])
  have cl: "linked s c" using members_linked [OF L] R by (metis list.set_intros(1))
  from ih(1) step.prems(2) have "T \<in> set (filter (linked s) (runnable_members s1))" by simp
  with sub have "T \<in> set (rotate1 ?R)" by (auto dest: list_emb_set)
  then have TR: "T \<in> set ?R" by simp
  with R cT have Ttl: "T \<in> set (tl ?R)" by (metis set_ConsD)
  have rot: "rotate1 ?R = tl ?R @ [c]" by (subst R) simp
  have each: "before ?R U T \<and> U \<noteq> c" if U: "U \<in> set xs" "linked s U" for U
  proof -
    from ih(2) U mono have "before (runnable_members s1) U T" by blast
    from before_filter [OF this U(2) step.prems(2)]
    have "before (filter (linked s) (runnable_members s1)) U T" .
    from before_mono [OF this sub] rot have "before (tl ?R @ [c]) U T" by simp
    from before_snoc [OF this] cT have b: "before (tl ?R) U T" by simp
    then have "U \<in> set (tl ?R)" by (auto dest: before_members)
    with dR R have "U \<noteq> c" by (metis distinct.simps(2))
    moreover from before_Cons [OF b, of c] R have "before ?R U T" by simp
    ultimately show ?thesis by simp
  qed
  have "before ?R c T" using before_hd [OF Ttl, of c] R by simp
  with each have all: "\<forall>U \<in> set (c # xs). linked s U \<longrightarrow> before ?R U T" by auto
  have "filter (linked s) xs = filter (linked s) (filter (linked s1) xs)"
    using mono by (auto intro: filter_cong)
  with ih(3) have "distinct (filter (linked s) xs)" by (metis distinct_filter)
  moreover have "c \<notin> set (filter (linked s) xs)" using each by auto
  ultimately have "distinct (filter (linked s) (c # xs))" using cl by simp
  with TR all show ?case by blast
qed

lemma selections_inv:
  assumes wb: "well_behaved app"
  shows "selections app T s xs s2 \<Longrightarrow> \<exists>L. list_inv s L \<Longrightarrow> \<exists>L. list_inv s2 L"
proof (induction rule: selections.induct)
  case (stop s)
  then show ?case .
next
  case (quiet s s1 xs s2)
  then obtain L where L: "list_inv s L" by auto
  from list_inv_extends [OF L quiet_step_extends [OF quiet.hyps(1) L]] quiet.IH show ?case by blast
next
  case (make i s p s1 xs s2)
  then obtain L where L: "list_inv s L" by auto
  from L obtain c where c: "runnable_tasks s = Some c" by (auto simp: list_inv_def)
  from make_runnable_effect [OF make.hyps(1) c list_inv_cursor(2,3) [OF L c]]
  have "\<exists>L1. list_inv s1 L1"
  proof
    assume "s1 = s" with L show ?thesis by blast
  next
    assume "\<exists>t<length (tasks s). t_prev (tasks s ! t) = None \<and> inserted s c t s1"
    then obtain t where t: "t < length (tasks s)" "t_prev (tasks s ! t) = None"
      and ins: "inserted s c t s1" by auto
    from members_inserted [OF L ins c t] show ?thesis by blast
  qed
  with make.IH show ?case by blast
next
  case (step s c b s1 xs s2)
  then obtain L where L: "list_inv s L" by auto
  from run_next_inv [OF wb L step.hyps(2)] step.IH show ?case by blast
qed

lemma count_filter_distinct:
  assumes "distinct (filter P xs)" "P u"
  shows "count_list xs u \<le> 1"
proof -
  have "count_list (filter P xs) u = count_list xs u" using assms(2) by (induction xs) auto
  moreover have "distinct ys \<Longrightarrow> count_list ys u \<le> 1" for ys
    by (induction ys) auto
  with assms(1) have "count_list (filter P xs) u \<le> 1" by blast
  ultimately show ?thesis by simp
qed

lemma reachable_three_tasks:
  assumes "three_tasks_before_loop = Inr s"
  shows "reachable example_ABC s"
proof -
  from assms obtain s3 b s4 Cin s5 where
    a: "powertask_register attributes_C registered_state = Inr s3"
    and b: "powertask_make_runnable 0xA123 s3 = Inr (b, s4)"
    and c: "powertask_make_runnable 0xC000 s4 = Inr (Cin, s5)"
    and d: "write_data Cin 0 0x43 s5 = Inr s"
    by (auto simp: three_tasks_before_loop_def three_tasks_registered_def main_registered_eq
        split: sum.splits)
  from reachable_registered_state app_step.reg [OF a] have "reachable example_ABC s3"
    by (rule reachable.app)
  from this app_step.make [OF b] have "reachable example_ABC s4" by (rule reachable.app)
  from this app_step.make [OF c] have "reachable example_ABC s5" by (rule reachable.app)
  from this app_step.fill [OF d] show ?thesis by (rule reachable.app)
qed

section \<open>The allocated packets, the fresh scheduler and the first step of the example\<close>

text \<open>
  The payload of an allocated packet: for every task that is made runnable (it is
  registered and not linked) and has no input packet, \<open>powertask_make_runnable\<close>
  allocates one, a fresh packet whose payload is \<open>input_length\<close> zero bytes; the same
  for the output packet and \<open>output_length\<close>. Its header is zero as well.
\<close>

lemma make_runnable_allocates_zeroed:
  assumes run: "powertask_make_runnable i s = Inr (b, s')"
    and look: "powertask_task_lookup i s = Inr (Some t)"
    and attr: "attribute (tasks s ! t) = Some a"
    and notrun: "t_prev (tasks s ! t) = None"
  shows "(t_input (tasks s ! t) = None \<longrightarrow>
           (\<exists>p. t_input (tasks s' ! t) = Some p \<and> length (telemetry s) \<le> p \<and>
                p < length (telemetry s') \<and>
                telemetry s' ! p = zeroed_packet (input_length a))) \<and>
         (t_output (tasks s ! t) = None \<longrightarrow>
           (\<exists>p. t_output (tasks s' ! t) = Some p \<and> length (telemetry s) \<le> p \<and>
                p < length (telemetry s') \<and>
                telemetry s' ! p = zeroed_packet (output_length a)))"
proof -
  from run look have valid: "t < length (tasks s)"
    by (auto simp: powertask_make_runnable_def attribute_at_def task_at_def
        split: sum.splits if_splits)
  show ?thesis
    using run look attr notrun valid
    by (auto simp: powertask_make_runnable_def attribute_at_def task_at_def Let_def
        powertask_allocate_telemetry_def upd_task_def zeroed_packet_def nth_append
        nth_list_update split: sum.splits if_splits option.splits)
qed

text \<open>
  On a scheduler on which tasks have been registered and nothing else, a step of the
  dispatcher runs the idle task, leaves the state as it is and returns false.
\<close>

lemma run_next_after_registrations:
  "registered_only s \<Longrightarrow> powertask_run_next app s = Inr (False, s)"
  by (intro idle_alone_step registered_only_inv)

text \<open>
  In \<open>main\<close> of the example before its loop, with the cursor at task A, one step runs
  \<open>function_A\<close>; whatever result code A returns (success, retry, or one of the two
  failure ranges), the step returns, and after it task B (address 2) is on the runnable
  list and the first byte of its input is \<open>'B'\<close>.
\<close>

lemma function_A_triggers_B_in_main:
  assumes "r = POWERTASK_RESULT_OK \<or> r = POWERTASK_RESULT_RETRY \<or>
           (POWERTASK_RESULT_FAIL_QUIET \<le> r \<and> r < POWERTASK_RESULT_LAST)"
  shows "\<exists>again s'.
       powertask_run_next (example_ABC(0 := function_A_returning r)) main_state = Inr (again, s')
     \<and> 2 \<in> set (runnable_members s')
     \<and> 2 \<notin> set (runnable_members main_state)
     \<and> attribute (tasks s' ! 2) = Some attributes_B
     \<and> read_data (t_input (tasks s' ! 2)) 0 s' = Inr 0x42"
  using assms
  apply (elim disjE)
    apply (simp_all add: example_defs result_codes)
  apply (auto simp: example_defs result_codes numeral_eq_Suc not_le not_less)
  done

section \<open>The claims\<close>

text \<open>
  C1. The claim: whenever the dispatcher removes a task, the removal closes the gap and
  clears the task's two links, so that a task with links set is a member. The code
  closes the gap and leaves the links as they were. In \<open>main\<close> of the example, the first
  step runs task A (address 0), which returns \<open>POWERTASK_RESULT_OK\<close> and is removed:
  the members are then B and the idle task, task A's \<open>prev\<close> and \<open>next\<close> still point to
  the idle task and to B, and a later \<open>powertask_make_runnable(0xA123)\<close> takes A for
  runnable and changes nothing.
\<close>

theorem remove_task_keeps_links_C1:
  "(case powertask_run_next example_ABC main_state of
      Inl e \<Rightarrow> None
    | Inr (again, s) \<Rightarrow>
        Some (runnable_members s, t_prev (tasks s ! 0), t_next (tasks s ! 0),
              powertask_make_runnable 0xA123 s = Inr (t_input (tasks s ! 0), s)))
   = Some ([2, 1], Some 1, Some 2, True)"
  by code_simp

text \<open>
  C2. The claim: \<open>powertask_make_runnable\<close> splices the task in next to the cursor and
  leaves every member's links in agreement with its neighbours'. The code sets the new
  task's two links and the cursor's \<open>next\<close>, and never the \<open>prev\<close> of the task that
  now follows the new one. In \<open>main\<close> of the example, after
  \<open>powertask_make_runnable(0xA123)\<close> the members are A (address 0) and the idle task
  (address 1); A's successor is the idle task, whose \<open>prev\<close> is still itself.
\<close>

theorem make_runnable_stale_prev_C2:
  "(case main_before_loop of
      Inl e \<Rightarrow> None
    | Inr s \<Rightarrow> Some (runnable_members s, t_next (tasks s ! 0), t_prev (tasks s ! 1),
                    links_agree s 0, links_agree s 1))
   = Some ([0, 1], Some 1, Some 1, False, False)"
  by code_simp

text \<open>
  C3. The claim: the result code of an admitted task is read as a four-way machine, in
  which success and the two failure ranges remove the task from the runnable list (and
  success and failure with output forward the output). The code does tell the codes apart
  as claimed (\<open>run_next_result_codes\<close> above) and calls \<open>remove_task\<close>, but
  \<open>remove_task\<close> does not always take the task off the list. In the program with
  three tasks, after four steps the cursor is at task C (address 3) and C's function
  returns \<open>POWERTASK_RESULT_OK\<close> there; after that fifth step C is still on the list,
  behind the idle task and B, because \<open>remove_task\<close> stored through C's \<open>prev\<close>,
  which pointed to task A, removed two steps before. Three steps later C runs again and
  its output byte goes from \<open>'D'\<close> to \<open>'E'\<close>.
\<close>

theorem completed_task_stays_runnable_C3:
  "(case three_tasks_before_loop of Inl e \<Rightarrow> None | Inr s0 \<Rightarrow>
    (case run_loop 4 example_ABC s0 of Inl e \<Rightarrow> None | Inr (again4, s4) \<Rightarrow>
    (case powertask_run_next example_ABC s4 of Inl e \<Rightarrow> None | Inr (again5, s5) \<Rightarrow>
    (case run_loop 2 example_ABC s5 of Inl e \<Rightarrow> None | Inr (again7, s7) \<Rightarrow>
       Some (runnable_tasks s4,
             map_sum id fst (function_B (t_input (tasks s4 ! 3)) (t_output (tasks s4 ! 3)) s4),
             runnable_members s5, t_prev (tasks s4 ! 3), runnable_members s4,
             runnable_tasks s7, read_data (t_output (tasks s7 ! 3)) 0 s7,
             map_sum id (\<lambda>(again8, s8). read_data (t_output (tasks s8 ! 3)) 0 s8)
               (powertask_run_next example_ABC s7))))))
   = Some (Some 3, Inr POWERTASK_RESULT_OK, [1, 2, 3], Some 0, [3, 1, 2],
           Some 3, Inr 0x44, Inr (Inr 0x45))"
  by code_simp

text \<open>
  C4. In every reachable state in which the available energy is below the
  \<open>minimum_battery\<close> of the task at the cursor, a step of the dispatcher returns (no
  fault), and what it returns does not depend on the application's functions (\<open>app'\<close>
  is any table of functions: none is called). The state after the step is the state before
  it with the cursor moved to the task's \<open>next\<close>: the packets, the links and the energy
  are as they were, the members are the same in the same cyclic order, read from the next
  member on, and the task is still one of them. The flag returned says whether more than
  one member is on the list.
\<close>

theorem energy_gate_C4:
  assumes wb: "well_behaved app" and re: "reachable app s"
    and c: "runnable_tasks s = Some c" and a: "attribute (tasks s ! c) = Some a"
    and low: "powertask_current_battery s < minimum_battery a"
  shows "\<exists>n. t_next (tasks s ! c) = Some n \<and>
           powertask_run_next app' s =
             Inr (1 < length (runnable_members s), s\<lparr>runnable_tasks := Some n\<rparr>) \<and>
           runnable_members (s\<lparr>runnable_tasks := Some n\<rparr>) = rotate1 (runnable_members s) \<and>
           hd (runnable_members s) = c \<and>
           c \<in> set (runnable_members (s\<lparr>runnable_tasks := Some n\<rparr>))"
proof -
  from reachable_sched_inv [OF wb re] c obtain L where L: "list_inv s L"
    by (auto simp: sched_inv_def pre_boot_def)
  from list_inv_cursor [OF L c] have cv: "c < length (tasks s)" by simp
  from advance_cursor_inv [OF L c] obtain n where n: "t_next (tasks s ! c) = Some n"
    "advance_cursor s = Inr (s\<lparr>runnable_tasks := Some n\<rparr>)"
    "list_inv (s\<lparr>runnable_tasks := Some n\<rparr>) L" by auto
  from more_work_iff [OF n(3)] obtain r where
    r: "task_at (s\<lparr>runnable_tasks := Some n\<rparr>) (Some n) = Inr r"
       "(Some n \<noteq> t_next r) = (1 < length L)" by auto
  from members_of_list_inv [OF L] c have m: "length (runnable_members s) = length L"
    "hd (runnable_members s) = c" "set (runnable_members s) = set L" by auto
  have run: "powertask_run_next app' s =
      Inr (1 < length (runnable_members s), s\<lparr>runnable_tasks := Some n\<rparr>)"
    using c cv a low n(2) r m(1)
    by (simp add: powertask_run_next_def attribute_at_def task_at_def Let_def not_le [symmetric])
  have rot: "runnable_members (s\<lparr>runnable_tasks := Some n\<rparr>) = rotate1 (runnable_members s)"
    by (rule members_advance [OF L c n(1)])
  have "c \<in> set (runnable_members s)" using m list_inv_cursor(1) [OF L c] by simp
  with rot have "c \<in> set (runnable_members (s\<lparr>runnable_tasks := Some n\<rparr>))" by simp
  with n(1) run rot m(2) show ?thesis by blast
qed

theorem energy_gate_C4_witness:
  "well_behaved example_ABC \<and>
   reachable example_ABC (main_state\<lparr>powertask_current_battery := 500\<rparr>) \<and>
   runnable_tasks (main_state\<lparr>powertask_current_battery := 500\<rparr>) = Some 0 \<and>
   attribute (tasks (main_state\<lparr>powertask_current_battery := 500\<rparr>) ! 0) = Some attributes_A \<and>
   powertask_current_battery (main_state\<lparr>powertask_current_battery := 500\<rparr>)
     < minimum_battery attributes_A \<and>
   powertask_run_next example_ABC (main_state\<lparr>powertask_current_battery := 500\<rparr>) =
     Inr (True, main_state\<lparr>powertask_current_battery := 500, runnable_tasks := Some 1\<rparr>) \<and>
   runnable_members (main_state\<lparr>powertask_current_battery := 500\<rparr>) = [0, 1] \<and>
   runnable_members (main_state\<lparr>powertask_current_battery := 500, runnable_tasks := Some 1\<rparr>) = [1, 0]"
proof -
  let ?s = "main_state\<lparr>powertask_current_battery := 500\<rparr>"
  have re: "reachable example_ABC ?s"
    using reachable_main_state app_step.energy by (rule reachable.app)
  have c: "runnable_tasks ?s = Some 0" by (simp add: main_state_def)
  have a: "attribute (tasks ?s ! 0) = Some attributes_A" by (simp add: main_state_def)
  have low: "powertask_current_battery ?s < minimum_battery attributes_A"
    by (simp add: attributes_A_def)
  have n: "t_next (tasks ?s ! 0) = Some 1" by (simp add: main_state_def)
  have m: "runnable_members ?s = [0, 1]" by code_simp
  from energy_gate_C4 [OF well_behaved_example_ABC re c a low, of example_ABC] n m
  have "powertask_run_next example_ABC ?s = Inr (True, ?s\<lparr>runnable_tasks := Some 1\<rparr>)"
    "runnable_members (?s\<lparr>runnable_tasks := Some 1\<rparr>) = [1, 0]"
    by auto
  with well_behaved_example_ABC re c a low m show ?thesis by simp
qed

text \<open>
  C5. The claim: the packet allocated for a task that has none when it is made runnable
  is zero in its payload, and its header is tagged with the task's ID and with the
  declared length. The payload is as claimed, for every task
  (\<open>make_runnable_allocates_zeroed\<close> above): \<open>input_length\<close>, respectively
  \<open>output_length\<close>, zero bytes. The header is not: \<open>powertask_allocate_telemetry\<close>
  is given the length alone and writes neither field. In \<open>main\<close> of the example, task A
  (ID \<open>0xA123\<close>, \<open>output_length\<close> 1) has no packets when it is made runnable, and
  the output packet allocated for it has ID 0 and length 0 in its header.
\<close>

theorem allocated_header_not_tagged_C5:
  "(case main_registered of Inl e \<Rightarrow> None | Inr s \<Rightarrow>
    (case powertask_make_runnable 0xA123 s of Inl e \<Rightarrow> None | Inr (b, s') \<Rightarrow>
       Some (powertask_task_lookup 0xA123 s, attribute (tasks s ! 0),
             t_output (tasks s ! 0), t_output (tasks s' ! 0),
             header (telemetry s' ! 3), data (telemetry s' ! 3),
             header_tagged 0xA123 1 (telemetry s' ! 3))))
   = Some (Inr (Some 0), Some attributes_A, None, Some 3,
           \<lparr>hdr_ID = 0, hdr_length = 0\<rparr>, [0], False)"
  by code_simp

text \<open>
  C6. The claim: \<open>powertask_run_next\<close> returns true exactly when the runnable set has
  more than one member after the step. The code returns
  \<open>runnable_tasks != runnable_tasks->next\<close>, which says so of the \<open>next\<close> chain from
  the cursor; the tasks that are runnable (made runnable and not completed, their links
  set) are not always on that chain. In the program with three tasks: C is made runnable
  and runs once (retry), B is made runnable while the cursor is at the idle task, B runs
  once and returns \<open>POWERTASK_RESULT_RETRY\<close>, then C runs and completes. That step
  returns false: \<open>remove_task\<close> stored through C's \<open>prev\<close>, the idle task, and so
  cut B out of the chain together with C. B has asked for a retry and its links are set
  (as are those of the idle task and of C), \<open>powertask_make_runnable(0xB007)\<close> takes
  it for runnable and changes nothing, and every later step runs the idle task and
  returns false: B is never retried. After the loop of the example's own \<open>main\<close> the step has returned false as
  well, with the links of A, the idle task and B set. On a scheduler on which tasks have
  been registered and nothing else, the step returns false, as the claim says
  (\<open>run_next_after_registrations\<close> above).
\<close>

theorem run_next_false_with_task_pending_C6:
  "(case three_tasks_registered of Inl e \<Rightarrow> None | Inr s \<Rightarrow>
    (case drive example_ABC [Make_runnable_filled 0xC000 0x43, Step,
                             Make_runnable_filled 0xB007 0x42] s of
       Inl e \<Rightarrow> None | Inr (log2, s2) \<Rightarrow>
    (case drive example_ABC [Step] s2 of Inl e \<Rightarrow> None | Inr (log3, s3) \<Rightarrow>
    (case powertask_run_next example_ABC s3 of Inl e \<Rightarrow> None | Inr (again4, s4) \<Rightarrow>
       Some (log2 @ log3, runnable_members s2,
             map_sum id fst (function_B (t_input (tasks s2 ! 2)) (t_output (tasks s2 ! 2)) s2),
             runnable_members s3, again4, runnable_members s4,
             t_prev (tasks s4 ! 2), t_next (tasks s4 ! 2),
             filter (linked s4) [0..<length (tasks s4)],
             read_data (t_output (tasks s4 ! 2)) 0 s4,
             powertask_make_runnable 0xB007 s4 = Inr (t_input (tasks s4 ! 2), s4),
             powertask_run_next example_ABC s4 = Inr (False, s4))))))
   = Some ([(Some 3, True), (Some 2, True)], [2, 3, 1],
           Inr POWERTASK_RESULT_RETRY,
           [3, 1, 2], False, [1],
           Some 1, Some 3,
           [1, 2, 3],
           Inr 0x42, True, True) \<and>
   (case run_loop 4 example_ABC main_state of Inl e \<Rightarrow> None | Inr (again, s) \<Rightarrow>
      Some (again, runnable_members s, filter (linked s) [0..<length (tasks s)]))
   = Some (False, [1], [0, 1, 2])"
  by code_simp

text \<open>
  C7. In a reachable state with no task registered yet, a registration that returns also
  registers the idle task (the lookup of its ID finds the struct at address 1) and makes
  it the one member of the runnable list. In every reachable state with a task
  registered, the struct at address 1 is the idle task's and is a member of the runnable
  list, which so has at least one member: no sequence of registrations, of calls of
  \<open>powertask_make_runnable\<close>, of writes to packets, of changes of the energy and of
  steps of the dispatcher takes it off. The idle task's function returns
  \<open>POWERTASK_RESULT_RETRY\<close> and changes nothing.
\<close>

theorem idle_task_always_runnable_C7:
  assumes "well_behaved app" "reachable app s"
  shows "(registered_tasks s = None \<longrightarrow>
           (\<forall>a s'. powertask_register a s = Inr s' \<longrightarrow>
              powertask_task_lookup powertask_ID_builtin_idle s' = Inr (Some 1) \<and>
              attribute (tasks s' ! 1) = Some attributes_idle_task \<and>
              runnable_members s' = [1])) \<and>
         (registered_tasks s \<noteq> None \<longrightarrow>
            attribute (tasks s ! 1) = Some attributes_idle_task \<and>
            1 \<in> set (runnable_members s) \<and> 1 \<le> length (runnable_members s)) \<and>
         powertask_idle_task inp outp s0 = Inr (POWERTASK_RESULT_RETRY, s0)"
proof (intro conjI impI allI)
  fix a s' assume none: "registered_tasks s = None" and reg: "powertask_register a s = Inr s'"
  from reachable_sched_inv [OF assms] none have "pre_boot s"
    by (auto simp: sched_inv_def list_inv_def)
  from first_register [OF this reg] have inv: "list_inv s' [1]"
    and look: "powertask_task_lookup powertask_ID_builtin_idle s' = Inr (Some 1)" by auto
  from look show "powertask_task_lookup powertask_ID_builtin_idle s' = Inr (Some 1)" .
  from inv show "attribute (tasks s' ! 1) = Some attributes_idle_task" by (simp add: list_inv_def)
  from inv have "runnable_tasks s' = Some 1" by (simp add: list_inv_def)
  from members_rotation [OF inv this, of "[]" "[]"] show "runnable_members s' = [1]" by simp
next
  assume "registered_tasks s \<noteq> None"
  from reachable_list_inv [OF assms this] obtain L where L: "list_inv s L" "hd L = 1" by auto
  then have "1 \<in> set L" by (cases L) (auto simp: list_inv_def)
  with L members_of_list_inv [OF L(1)]
  show "attribute (tasks s ! 1) = Some attributes_idle_task" "1 \<in> set (runnable_members s)"
    "1 \<le> length (runnable_members s)"
    by (auto simp: list_inv_def Suc_le_eq)
next
  show "powertask_idle_task inp outp s0 = Inr (POWERTASK_RESULT_RETRY, s0)"
    by (simp add: powertask_idle_task_def)
qed

theorem idle_task_always_runnable_C7_witness:
  "well_behaved example_ABC \<and> reachable example_ABC initial_state \<and>
   reachable example_ABC main_state \<and>
   registered_tasks initial_state = None \<and> registered_tasks main_state \<noteq> None \<and>
   (\<exists>s'. powertask_register attributes_A initial_state = Inr s' \<and>
      powertask_task_lookup powertask_ID_builtin_idle s' = Inr (Some 1) \<and>
      attribute (tasks s' ! 1) = Some attributes_idle_task \<and>
      runnable_members s' = [1]) \<and>
   attribute (tasks main_state ! 1) = Some attributes_idle_task \<and>
   1 \<in> set (runnable_members main_state) \<and> 1 \<le> length (runnable_members main_state)"
proof -
  note wb = well_behaved_example_ABC
  have r0: "reachable example_ABC initial_state" by (rule reachable.init)
  have n0: "registered_tasks initial_state = None" by (simp add: initial_state_def)
  have n1: "registered_tasks main_state \<noteq> None" by (simp add: main_state_def)
  from main_registered_eq obtain s1 where
    s1: "powertask_register attributes_A initial_state = Inr s1"
    by (auto simp: main_registered_def split: sum.splits)
  from idle_task_always_runnable_C7 [OF wb r0] n0 s1 idle_task_always_runnable_C7 [OF wb reachable_main_state] n1 wb r0 reachable_main_state
  show ?thesis by auto
qed

text \<open>
  C8. The claim: when task A is dispatched, writes \<open>'A'\<close> to its output, calls
  \<open>powertask_make_runnable\<close> on task B's ID, writes \<open>'B'\<close> into the packet it gets
  back and returns, then after that step task B is a member of the runnable set with
  input byte \<open>'B'\<close>, whatever A returns. In \<open>main\<close> of the example it is so
  (\<open>function_A_triggers_B_in_main\<close> above). It is not when B has run before: B is
  made runnable with input \<open>'X'\<close>, runs twice and completes (output \<open>'Y'\<close>), which
  leaves the idle task alone on the list and B's links set; then A is made runnable and
  dispatched. A's call \<open>powertask_make_runnable(0xB007)\<close> finds B's \<open>prev\<close> set, takes
  B for runnable and returns its input packet, and A writes \<open>'B'\<close> there. After the step
  B's input byte is \<open>'B'\<close> and B is not on the list, whether A returns
  \<open>POWERTASK_RESULT_OK\<close> (as in the source) or \<open>POWERTASK_RESULT_RETRY\<close>; in the
  first case the step returns false, every later step runs the idle task only, and B's
  output stays \<open>'Y'\<close>.
\<close>

theorem triggered_task_not_runnable_C8:
  "(case main_registered of Inl e \<Rightarrow> None | Inr s \<Rightarrow>
    (case drive example_ABC [Make_runnable_filled 0xB007 0x58, Step, Step, Step,
                             Make_runnable 0xA123] s of
       Inl e \<Rightarrow> None | Inr (log, s4) \<Rightarrow>
    (case powertask_run_next example_ABC s4 of Inl e \<Rightarrow> None | Inr (again5, s5) \<Rightarrow>
    (case powertask_run_next (example_ABC(0 := function_A_returning POWERTASK_RESULT_RETRY)) s4 of
       Inl e \<Rightarrow> None | Inr (again5', s5') \<Rightarrow>
       Some (log, runnable_tasks s4, runnable_members s4, t_prev (tasks s4 ! 2),
             read_data (t_input (tasks s4 ! 2)) 0 s4, read_data (t_output (tasks s4 ! 2)) 0 s4,
             again5, runnable_members s5,
             read_data (t_output (tasks s5 ! 0)) 0 s5,
             read_data (t_input (tasks s5 ! 2)) 0 s5, read_data (t_output (tasks s5 ! 2)) 0 s5,
             powertask_run_next example_ABC s5 = Inr (False, s5),
             runnable_members s5', read_data (t_input (tasks s5' ! 2)) 0 s5')))))
   = Some ([(Some 2, True), (Some 1, True), (Some 2, True)], Some 0, [0, 1], Some 1,
           Inr 0x58, Inr 0x59,
           False, [1],
           Inr 0x41,
           Inr 0x42, Inr 0x59,
           True,
           [1, 0], Inr 0x42)"
  by code_simp

text \<open>
  C9, as stated: between two executions of a task T, the first of which returned retry,
  every other member present at the first is attempted at most once. Two executions of the
  example's tasks contradict it; the log gives, step by step, the task at the cursor and
  whether its function ran. In the first, the state is the example's after one turn of
  its loop (members B at address 2, then the idle task at 1): B runs and asks for a retry,
  the energy falls to 5000 so that B is passed over at its next turn, then rises again;
  between B's two executions the idle task is attempted twice. In the second, with the
  energy constant, the driving program makes B runnable while the cursor is at C
  (address 3): B cuts in after C and the cursor moves on to B, so C waits a whole round
  more and the idle task is attempted twice between C's two executions.
\<close>

theorem round_robin_broken_C9:
  "runnable_members (example_state 1) = [2, 1] \<and>
   map_sum id fst (drive example_ABC
       [Step, Step, Set_energy 5000, Step, Step, Set_energy 30000, Step] (example_state 1))
     = Inr [(Some 2, True), (Some 1, True), (Some 2, False), (Some 1, True), (Some 2, True)] \<and>
   (case three_tasks_registered of Inl e \<Rightarrow> Inl e | Inr s \<Rightarrow>
      map_sum id fst (drive example_ABC
        [Make_runnable_filled 0xC000 0x43, Step, Step,
         Make_runnable_filled 0xB007 0x42, Step, Step, Step] s))
     = Inr [(Some 3, True), (Some 1, True), (Some 2, True), (Some 1, True), (Some 3, True)]"
  by code_simp

text \<open>
  C9, amended: take a step of the dispatcher in a reachable state, at which the cursor
  selects a task T, and an execution after it at whose end the cursor selects T again,
  T not having been selected in between. In this execution task functions may call
  \<open>powertask_make_runnable\<close>, the application may register tasks and write to
  packets, the energy may change, and the driving program may call
  \<open>powertask_make_runnable\<close> between the steps whenever the cursor is not at T (and,
  for a task that is linked already, at any time). Then every task that was a member at
  the first step is selected at most once in between. (Whether T's function runs at a
  selection depends on the energy then.)
\<close>

theorem round_robin_selections_C9:
  assumes wb: "well_behaved app" and re: "reachable app s0"
    and cur: "runnable_tasks s0 = Some T"
    and run: "powertask_run_next app s0 = Inr (b, s1)"
    and sel: "selections app T s1 xs s2"
    and notT: "T \<notin> set xs"
    and again: "runnable_tasks s2 = Some T"
    and U: "U \<in> set (runnable_members s0)"
  shows "count_list xs U \<le> 1"
proof -
  from reachable_sched_inv [OF wb re] cur obtain L0 where L0: "list_inv s0 L0"
    by (auto simp: sched_inv_def pre_boot_def)
  from members_of_list_inv [OF L0] cur members_nonempty [OF L0]
  have "T \<in> set (runnable_members s0)" by (cases "runnable_members s0") auto
  from members_linked [OF L0 this] members_linked [OF L0 U]
  have l0: "linked s0 T" "linked s0 U" .
  from run_next_members [OF wb L0 run] l0 have l1: "linked s1 T" "linked s1 U" by auto
  from run_next_inv [OF wb L0 run] have inv1: "\<exists>L. list_inv s1 L" by auto
  from selections_inv [OF wb sel inv1] obtain L2 where L2: "list_inv s2 L2" ..
  from members_of_list_inv [OF L2] again members_nonempty [OF L2]
  have "T \<in> set (runnable_members s2)" by (cases "runnable_members s2") auto
  from selections_order [OF wb sel inv1 l1(1) this notT]
  have "distinct (filter (linked s1) xs)" by simp
  from count_filter_distinct [OF this l1(2)] show ?thesis .
qed

theorem round_robin_selections_C9_witness:
  "well_behaved example_ABC \<and> reachable example_ABC (three_tasks_state []) \<and>
   runnable_tasks (three_tasks_state []) = Some 3 \<and>
   powertask_run_next example_ABC (three_tasks_state []) = Inr (True, three_tasks_state [Step]) \<and>
   selections example_ABC 3 (three_tasks_state [Step]) [1, 2]
     (three_tasks_state [Step, Step, Make_runnable 0xB007, Step]) \<and>
   3 \<notin> set [1, 2::nat] \<and>
   runnable_tasks (three_tasks_state [Step, Step, Make_runnable 0xB007, Step]) = Some 3 \<and>
   1 \<in> set (runnable_members (three_tasks_state [])) \<and>
   count_list [1, 2::nat] 1 \<le> 1"
proof -
  let ?s0 = "three_tasks_state []"
  let ?s1 = "three_tasks_state [Step]"
  let ?s2 = "three_tasks_state [Step, Step]"
  let ?s3 = "three_tasks_state [Step, Step, Make_runnable 0xB007]"
  let ?s4 = "three_tasks_state [Step, Step, Make_runnable 0xB007, Step]"
  have s0: "three_tasks_before_loop = Inr ?s0" by code_simp
  have r0: "powertask_run_next example_ABC ?s0 = Inr (True, ?s1)" by code_simp
  have r1: "powertask_run_next example_ABC ?s1 = Inr (True, ?s2)" by code_simp
  have m2: "powertask_make_runnable 0xB007 ?s2 = Inr (Some 6, ?s3)" by code_simp
  have r3: "powertask_run_next example_ABC ?s3 = Inr (True, ?s4)" by code_simp
  have c0: "runnable_tasks ?s0 = Some 3" by code_simp
  have c1: "runnable_tasks ?s1 = Some 1" by code_simp
  have c2: "runnable_tasks ?s2 \<noteq> Some 3 \<or> ?s3 = ?s2" by code_simp
  have c3: "runnable_tasks ?s3 = Some 2" by code_simp
  have c4: "runnable_tasks ?s4 = Some 3" by code_simp
  have m0: "runnable_members ?s0 = [3, 1, 0]" by code_simp
  have re: "reachable example_ABC ?s0" using s0 by (rule reachable_three_tasks)
  have "selections example_ABC 3 ?s4 [] ?s4" by (rule selections.stop)
  with c3 r3 have "selections example_ABC 3 ?s3 [2] ?s4" by (rule selections.step)
  with m2 c2 have "selections example_ABC 3 ?s2 [2] ?s4" by (rule selections.make)
  with c1 r1 have sel: "selections example_ABC 3 ?s1 [1, 2] ?s4" by (rule selections.step)
  have U: "1 \<in> set (runnable_members ?s0)" using m0 by simp
  have notT: "3 \<notin> set [1, 2::nat]" by simp
  from round_robin_selections_C9 [OF well_behaved_example_ABC re c0 r0 sel notT c4 U]
    well_behaved_example_ABC re c0 r0 sel c4 U
  show ?thesis by simp
qed

text \<open>
  C10. \<open>powertask_task_lookup\<close> reads \<open>registered_tasks->attribute\<close> before any test,
  and \<open>powertask_run_next\<close> reads \<open>runnable_tasks->attribute\<close>: with no task
  registered the lookup, and \<open>powertask_make_runnable\<close> through it, dereference the
  null pointer; with an empty runnable list \<open>powertask_run_next\<close> does. Neither
  reaches its \<open>return 0\<close> or its \<open>return\<close> of false.
\<close>

theorem null_root_and_cursor_C10:
  "(registered_tasks s = None \<longrightarrow>
      powertask_task_lookup i s = Inl Null_dereference \<and>
      powertask_make_runnable i s = Inl Null_dereference) \<and>
   (runnable_tasks s = None \<longrightarrow> powertask_run_next app s = Inl Null_dereference)"
  by (simp add: powertask_task_lookup_def powertask_make_runnable_def powertask_run_next_def
      attribute_at_def task_at_def)

theorem null_root_and_cursor_C10_witness:
  "registered_tasks initial_state = None \<and> runnable_tasks initial_state = None \<and>
   powertask_task_lookup 0xB007 initial_state = Inl Null_dereference \<and>
   powertask_make_runnable 0xB007 initial_state = Inl Null_dereference \<and>
   powertask_run_next example_ABC initial_state = Inl Null_dereference"
proof -
  have "registered_tasks initial_state = None" "runnable_tasks initial_state = None"
    by (simp_all add: initial_state_def)
  with null_root_and_cursor_C10 [of initial_state "0xB007" example_ABC]
  show ?thesis by simp
qed

end
